theory Spec2Isabelle
  imports Main "HOL-Library.Sublist" "HOL-Library.AList"
begin

section \<open>Text and character classes\<close>

text \<open>
  The program is \<^verbatim>\<open>update_hashes.py\<close>. File contents, paths inside the actions
  repository and commit hashes are Python \<^verbatim>\<open>str\<close> values; they are modelled as
  \<^typ>\<open>string\<close>, one \<^typ>\<open>char\<close> per code point (code points below 256).

  \<^verbatim>\<open>\s\<close> in a \<^verbatim>\<open>str\<close> pattern and \<^verbatim>\<open>str.strip()\<close> use the same test
  for white space: the code points 9 to 13, 28 to 32, 0x85 and 0xA0 in this range.
\<close>

definition isspace :: "char \<Rightarrow> bool" where
  "isspace c \<longleftrightarrow> c \<in> {CHR 0x09, CHR 0x0A, CHR 0x0B, CHR 0x0C, CHR 0x0D,
                    CHR 0x1C, CHR 0x1D, CHR 0x1E, CHR 0x1F, CHR 0x20, CHR 0x85, CHR 0xA0}"

text \<open>The class \<^verbatim>\<open>[^@\s]\<close>.\<close>

definition not_at_space :: "char \<Rightarrow> bool" where
  "not_at_space c \<longleftrightarrow> c \<noteq> CHR ''@'' \<and> \<not> isspace c"

text \<open>The class \<^verbatim>\<open>[a-z0-9._/-]\<close>.\<close>

definition dir_char :: "char \<Rightarrow> bool" where
  "dir_char c \<longleftrightarrow> c \<in> set ''abcdefghijklmnopqrstuvwxyz0123456789._/-''"

text \<open>The class \<^verbatim>\<open>[a-f0-9]\<close>.\<close>

definition hex_char :: "char \<Rightarrow> bool" where
  "hex_char c \<longleftrightarrow> c \<in> set ''abcdef0123456789''"

section \<open>The regular expression, as a backtracking matcher\<close>

text \<open>
  Python's \<^verbatim>\<open>re\<close> is a backtracking engine. A matcher takes the text at the current
  position and returns the text remaining after each way of matching, in the order in
  which the engine tries them; the engine's match is the first way that lets the rest
  of the pattern succeed.
\<close>

type_synonym matcher = "string \<Rightarrow> string list"

text \<open>A literal.\<close>

definition lit :: "string \<Rightarrow> matcher" where
  "lit l s = (if take (length l) s = l then [drop (length l) s] else [])"

text \<open>\<^verbatim>\<open>[...]+\<close>: greedy, so the longest run is tried first and the shortest last.\<close>

fun plus_cls :: "(char \<Rightarrow> bool) \<Rightarrow> matcher" where
  "plus_cls p [] = []"
| "plus_cls p (c # s) = (if p c then plus_cls p s @ [s] else [])"

text \<open>\<^verbatim>\<open>[...]{n}\<close>: exactly n characters of the class.\<close>

fun rep_cls :: "nat \<Rightarrow> (char \<Rightarrow> bool) \<Rightarrow> matcher" where
  "rep_cls 0 p s = [s]"
| "rep_cls (Suc n) p [] = []"
| "rep_cls (Suc n) p (c # s) = (if p c then rep_cls n p s else [])"

text \<open>Concatenation and alternation (the left branch is tried first).\<close>

definition seq_m :: "matcher \<Rightarrow> matcher \<Rightarrow> matcher" where
  "seq_m a b s = concat (map b (a s))"

definition alt_m :: "matcher \<Rightarrow> matcher \<Rightarrow> matcher" where
  "alt_m a b s = a s @ b s"

definition PREFIX :: string where
  "PREFIX = ''XRPLF/actions/''"

text \<open>Group 1: \<^verbatim>\<open>(?:\.github/workflows/[^@\s]+|[a-z0-9._/-]+)\<close>.\<close>

definition path_m :: matcher where
  "path_m = alt_m (seq_m (lit ''.github/workflows/'') (plus_cls not_at_space)) (plus_cls dir_char)"

text \<open>Group 2: \<^verbatim>\<open>[a-f0-9]{40}\<close>.\<close>

definition hash_m :: matcher where
  "hash_m = rep_cls 40 hex_char"

text \<open>
  \<^verbatim>\<open>PATTERN\<close> tried at the start of \<open>s\<close>: every way of matching the four parts in
  turn, in the engine's order, each with group 1, group 2 and the text after the match.
\<close>

definition PATTERN_ways :: "string \<Rightarrow> (string \<times> string \<times> string) list" where
  "PATTERN_ways s =
     concat (map (\<lambda>r1.
       concat (map (\<lambda>r2.
         concat (map (\<lambda>r3.
           map (\<lambda>r4. (take (length r1 - length r2) r1, take (length r3 - length r4) r3, r4))
             (hash_m r3))
           (lit ''@'' r2)))
         (path_m r1)))
       (lit PREFIX s))"

definition PATTERN_match :: "string \<Rightarrow> (string \<times> string \<times> string) option" where
  "PATTERN_match s = (case PATTERN_ways s of [] \<Rightarrow> None | w # _ \<Rightarrow> Some w)"

section \<open>The reference grammar\<close>

text \<open>
  The grammar of a reference as the specification words it: the literal prefix, a path
  that is a workflow path or a directory path, an at sign, and forty lower-case
  hexadecimal characters.
\<close>

definition is_hash :: "string \<Rightarrow> bool" where
  "is_hash h \<longleftrightarrow> length h = 40 \<and> list_all hex_char h"

definition workflow_path :: "string \<Rightarrow> bool" where
  "workflow_path p \<longleftrightarrow>
     (\<exists>q. p = ''.github/workflows/'' @ q \<and> q \<noteq> [] \<and> list_all not_at_space q)"

definition dir_path :: "string \<Rightarrow> bool" where
  "dir_path p \<longleftrightarrow> p \<noteq> [] \<and> list_all dir_char p"

definition is_path :: "string \<Rightarrow> bool" where
  "is_path p \<longleftrightarrow> workflow_path p \<or> dir_path p"

text \<open>
  The matches of a text as the specification words them: the occurrences of the grammar
  from the left, without overlap. Where a reference starts it is taken and the scan goes
  on after it; elsewhere the scan moves one character on. A match carries the matched
  text, the path and the hash.
\<close>

inductive spec_scan :: "string \<Rightarrow> (string \<times> string \<times> string) list \<Rightarrow> bool" where
  scan_end: "spec_scan [] []"
| scan_ref: "is_path p \<Longrightarrow> is_hash h \<Longrightarrow> spec_scan rest ms \<Longrightarrow>
     spec_scan (PREFIX @ p @ ''@'' @ h @ rest) ((PREFIX @ p @ ''@'' @ h, p, h) # ms)"
| scan_skip: "\<not> (\<exists>p h rest. is_path p \<and> is_hash h \<and> c # s = PREFIX @ p @ ''@'' @ h @ rest) \<Longrightarrow>
     spec_scan s ms \<Longrightarrow> spec_scan (c # s) ms"

section \<open>What the pattern matches\<close>

lemma plus_cls_set: "r \<in> set (plus_cls p s) \<longleftrightarrow> (\<exists>q. q \<noteq> [] \<and> s = q @ r \<and> list_all p q)"
proof (induction s arbitrary: r)
  case Nil then show ?case by simp
next
  case (Cons c s)
  show ?case
  proof (cases "p c")
    case False
    then show ?thesis by (auto simp: neq_Nil_conv)
  next
    case True
    show ?thesis
    proof
      assume "r \<in> set (plus_cls p (c # s))"
      with True have "r \<in> set (plus_cls p s) \<or> r = s" by auto
      then show "\<exists>q. q \<noteq> [] \<and> c # s = q @ r \<and> list_all p q"
      proof
        assume "r \<in> set (plus_cls p s)"
        then obtain q where "q \<noteq> []" "s = q @ r" "list_all p q" using Cons.IH by blast
        then show ?thesis using True by (intro exI[of _ "c # q"]) simp
      next
        assume "r = s"
        then show ?thesis using True by (intro exI[of _ "[c]"]) simp
      qed
    next
      assume "\<exists>q. q \<noteq> [] \<and> c # s = q @ r \<and> list_all p q"
      then obtain q where q: "q \<noteq> []" "c # s = q @ r" "list_all p q" by blast
      then obtain q' where q': "q = c # q'" "s = q' @ r" by (cases q) auto
      show "r \<in> set (plus_cls p (c # s))"
      proof (cases "q' = []")
        case True
        with q' \<open>p c\<close> show ?thesis by simp
      next
        case False
        with q' q have "r \<in> set (plus_cls p s)" using Cons.IH by auto
        with \<open>p c\<close> show ?thesis by simp
      qed
    qed
  qed
qed

lemma rep_cls_eq:
  "rep_cls n p s = (if n \<le> length s \<and> list_all p (take n s) then [drop n s] else [])"
  by (induction n p s rule: rep_cls.induct) auto

lemma lit_set: "r \<in> set (lit l s) \<longleftrightarrow> s = l @ r"
  by (auto simp: lit_def) (metis append_take_drop_id)

lemma hash_m_set: "r \<in> set (hash_m s) \<longleftrightarrow> (\<exists>h. is_hash h \<and> s = h @ r)"
proof
  assume "r \<in> set (hash_m s)"
  then have "40 \<le> length s" "list_all hex_char (take 40 s)" "r = drop 40 s"
    by (auto simp: hash_m_def rep_cls_eq split: if_splits)
  then show "\<exists>h. is_hash h \<and> s = h @ r"
    by (intro exI[of _ "take 40 s"]) (simp add: is_hash_def)
next
  assume "\<exists>h. is_hash h \<and> s = h @ r"
  then show "r \<in> set (hash_m s)"
    by (auto simp: hash_m_def rep_cls_eq is_hash_def)
qed

lemma path_m_set: "r \<in> set (path_m s) \<longleftrightarrow> (\<exists>p. is_path p \<and> s = p @ r)"
proof
  assume "r \<in> set (path_m s)"
  then consider
    (a) r1 where "r1 \<in> set (lit ''.github/workflows/'' s)" "r \<in> set (plus_cls not_at_space r1)"
    | (b) "r \<in> set (plus_cls dir_char s)"
    by (auto simp: path_m_def alt_m_def seq_m_def)
  then show "\<exists>p. is_path p \<and> s = p @ r"
  proof cases
    case a
    then obtain q where "s = ''.github/workflows/'' @ r1" "q \<noteq> []" "r1 = q @ r" "list_all not_at_space q"
      unfolding lit_set plus_cls_set by blast
    then show ?thesis
      by (intro exI[of _ "''.github/workflows/'' @ q"]) (auto simp: is_path_def workflow_path_def)
  next
    case b
    then obtain q where "q \<noteq> []" "s = q @ r" "list_all dir_char q"
      unfolding plus_cls_set by blast
    then show ?thesis
      by (intro exI[of _ q]) (simp add: is_path_def dir_path_def)
  qed
next
  assume "\<exists>p. is_path p \<and> s = p @ r"
  then obtain p where p: "is_path p" "s = p @ r" by blast
  from p(1) show "r \<in> set (path_m s)"
    unfolding is_path_def
  proof
    assume "workflow_path p"
    then obtain q where q: "p = ''.github/workflows/'' @ q" "q \<noteq> []" "list_all not_at_space q"
      unfolding workflow_path_def by blast
    have 1: "q @ r \<in> set (lit ''.github/workflows/'' s)"
      unfolding lit_set using q p by simp
    have 2: "r \<in> set (plus_cls not_at_space (q @ r))"
      unfolding plus_cls_set using q by blast
    show ?thesis
      unfolding path_m_def alt_m_def seq_m_def using 1 2 by auto
  next
    assume "dir_path p"
    then have "r \<in> set (plus_cls dir_char s)"
      unfolding plus_cls_set dir_path_def using p by blast
    then show ?thesis
      unfolding path_m_def alt_m_def seq_m_def by simp
  qed
qed

lemma PATTERN_ways_set:
  "(g1, g2, r) \<in> set (PATTERN_ways s) \<longleftrightarrow>
     is_path g1 \<and> is_hash g2 \<and> s = PREFIX @ g1 @ ''@'' @ g2 @ r"
proof
  assume "(g1, g2, r) \<in> set (PATTERN_ways s)"
  then obtain r1 r2 r3 where
    "r1 \<in> set (lit PREFIX s)" "r2 \<in> set (path_m r1)" "r3 \<in> set (lit ''@'' r2)"
    "r \<in> set (hash_m r3)"
    and g: "g1 = take (length r1 - length r2) r1" "g2 = take (length r3 - length r) r3"
    unfolding PATTERN_ways_def by auto
  then obtain p h where "s = PREFIX @ r1" "is_path p" "r1 = p @ r2" "r2 = ''@'' @ r3"
    "is_hash h" "r3 = h @ r"
    unfolding lit_set path_m_set hash_m_set by blast
  then show "is_path g1 \<and> is_hash g2 \<and> s = PREFIX @ g1 @ ''@'' @ g2 @ r"
    using g by simp
next
  assume a: "is_path g1 \<and> is_hash g2 \<and> s = PREFIX @ g1 @ ''@'' @ g2 @ r"
  define r3 where "r3 = g2 @ r"
  define r2 where "r2 = ''@'' @ r3"
  define r1 where "r1 = g1 @ r2"
  have 1: "r1 \<in> set (lit PREFIX s)" unfolding lit_set using a by (simp add: r1_def r2_def r3_def)
  have 2: "r2 \<in> set (path_m r1)" unfolding path_m_set using a r1_def by blast
  have 3: "r3 \<in> set (lit ''@'' r2)" unfolding lit_set by (simp add: r2_def)
  have 4: "r \<in> set (hash_m r3)" unfolding hash_m_set using a r3_def by blast
  have 5: "g1 = take (length r1 - length r2) r1" by (simp add: r1_def)
  have 6: "g2 = take (length r3 - length r) r3" by (simp add: r3_def)
  show "(g1, g2, r) \<in> set (PATTERN_ways s)"
    unfolding PATTERN_ways_def using 1 2 3 4 5 6 by (auto intro!: bexI)
qed

lemma split_at_unique:
  assumes "a @ x # b = c @ x # d" "x \<notin> set a" "x \<notin> set c"
  shows "a = c \<and> b = d"
  using assms
proof (induction a arbitrary: c)
  case Nil
  then show ?case by (cases c) auto
next
  case (Cons y a)
  then show ?case by (cases c) auto
qed

lemma dir_char_not_at: "dir_char c \<Longrightarrow> c \<noteq> CHR ''@''"
  by (auto simp: dir_char_def)

lemma not_at_space_not_at: "not_at_space c \<Longrightarrow> c \<noteq> CHR ''@''"
  by (simp add: not_at_space_def)

lemma dir_path_no_at: "dir_path p \<Longrightarrow> CHR ''@'' \<notin> set p"
  unfolding dir_path_def list_all_iff using dir_char_not_at by blast

lemma workflow_path_no_at: "workflow_path p \<Longrightarrow> CHR ''@'' \<notin> set p"
proof -
  assume "workflow_path p"
  then obtain q where q: "p = ''.github/workflows/'' @ q" "list_all not_at_space q"
    unfolding workflow_path_def by blast
  have "CHR ''@'' \<notin> set q" using q(2) not_at_space_not_at unfolding list_all_iff by blast
  moreover have "CHR ''@'' \<notin> set ''.github/workflows/''" by simp
  ultimately show ?thesis using q(1) by simp
qed

lemma is_path_no_at: "is_path p \<Longrightarrow> CHR ''@'' \<notin> set p"
  unfolding is_path_def using dir_path_no_at workflow_path_no_at by blast

lemma is_path_nonempty: "is_path p \<Longrightarrow> p \<noteq> []"
  unfolding is_path_def workflow_path_def dir_path_def by auto

lemma PREFIX_no_at: "CHR ''@'' \<notin> set PREFIX"
  by (simp add: PREFIX_def)

lemma reference_unique:
  assumes "PREFIX @ p @ ''@'' @ h @ r = PREFIX @ p' @ ''@'' @ h' @ r'"
    and "is_path p" "is_hash h" "is_path p'" "is_hash h'"
  shows "p = p' \<and> h = h' \<and> r = r'"
proof -
  from assms(1) have "p @ CHR ''@'' # (h @ r) = p' @ CHR ''@'' # (h' @ r')" by simp
  then have "p = p'" "h @ r = h' @ r'"
    using split_at_unique is_path_no_at assms(2,4) by metis+
  moreover have "length h = length h'" using assms(3,5) by (simp add: is_hash_def)
  ultimately show ?thesis by simp
qed

lemma PATTERN_match_Some:
  "PATTERN_match s = Some (g1, g2, r) \<longleftrightarrow>
     is_path g1 \<and> is_hash g2 \<and> s = PREFIX @ g1 @ ''@'' @ g2 @ r"
proof
  assume "PATTERN_match s = Some (g1, g2, r)"
  then have "(g1, g2, r) \<in> set (PATTERN_ways s)"
    by (auto simp: PATTERN_match_def split: list.splits)
  then show "is_path g1 \<and> is_hash g2 \<and> s = PREFIX @ g1 @ ''@'' @ g2 @ r"
    by (simp add: PATTERN_ways_set)
next
  assume a: "is_path g1 \<and> is_hash g2 \<and> s = PREFIX @ g1 @ ''@'' @ g2 @ r"
  then have "(g1, g2, r) \<in> set (PATTERN_ways s)" by (simp add: PATTERN_ways_set)
  then obtain w ws where w: "PATTERN_ways s = w # ws" by (cases "PATTERN_ways s") auto
  obtain p h r' where [simp]: "w = (p, h, r')" by (cases w) auto
  have "(p, h, r') \<in> set (PATTERN_ways s)" using w by simp
  then have "is_path p \<and> is_hash h \<and> s = PREFIX @ p @ ''@'' @ h @ r'"
    by (simp add: PATTERN_ways_set)
  with a have "p = g1 \<and> h = g2 \<and> r' = r"
    using reference_unique[of p h r' g1 g2 r] by simp
  then show "PATTERN_match s = Some (g1, g2, r)"
    using w by (simp add: PATTERN_match_def)
qed

lemma PATTERN_match_shorter:
  "PATTERN_match s = Some (g1, g2, r) \<Longrightarrow> length r < length s"
  by (simp add: PATTERN_match_Some)

section \<open>Scanner\<close>

text \<open>
  \<^verbatim>\<open>PATTERN.finditer(content)\<close>: the matches from left to right, each as groups
  0, 1 and 2. After a match the search goes on where the match ended; the pattern never
  matches the empty string. Where there is no match the search moves one character on.
\<close>

function finditer :: "string \<Rightarrow> (string \<times> string \<times> string) list" where
  "finditer s =
     (case PATTERN_match s of
        Some (g1, g2, r) \<Rightarrow> (take (length s - length r) s, g1, g2) # finditer r
      | None \<Rightarrow> (case s of [] \<Rightarrow> [] | c # s' \<Rightarrow> finditer s'))"
  by pat_completeness auto
termination
  by (relation "measure length") (auto simp: PATTERN_match_shorter)

declare finditer.simps [simp del]

lemma finditer_hit:
  "PATTERN_match s = Some (g1, g2, r) \<Longrightarrow>
     finditer s = (take (length s - length r) s, g1, g2) # finditer r"
  by (subst finditer.simps) simp

lemma finditer_miss:
  "PATTERN_match (c # s) = None \<Longrightarrow> finditer (c # s) = finditer s"
  by (subst finditer.simps) simp

lemma finditer_Nil: "finditer [] = []"
  by (subst finditer.simps) (simp add: PATTERN_match_def PATTERN_ways_def lit_def PREFIX_def)

lemma PATTERN_match_not_X: "c \<noteq> CHR ''X'' \<Longrightarrow> PATTERN_match (c # s) = None"
  by (simp add: PATTERN_match_def PATTERN_ways_def lit_def PREFIX_def)

lemma PATTERN_match_None:
  "PATTERN_match s = None \<longleftrightarrow>
     \<not> (\<exists>p h rest. is_path p \<and> is_hash h \<and> s = PREFIX @ p @ ''@'' @ h @ rest)"
proof -
  have "PATTERN_match s \<noteq> None \<longleftrightarrow> (\<exists>p h rest. PATTERN_match s = Some (p, h, rest))"
    by (cases "PATTERN_match s") auto
  then show ?thesis unfolding PATTERN_match_Some by blast
qed

lemma finditer_spec: "spec_scan s (finditer s)"
proof (induction s rule: finditer.induct)
  case (1 s)
  show ?case
  proof (cases "PATTERN_match s")
    case None
    show ?thesis
    proof (cases s)
      case Nil
      then show ?thesis by (simp add: finditer_Nil scan_end)
    next
      case (Cons c s')
      have "spec_scan s' (finditer s')" using 1(1)[OF None Cons] .
      moreover have "\<not> (\<exists>p h rest. is_path p \<and> is_hash h \<and> c # s' = PREFIX @ p @ ''@'' @ h @ rest)"
        using None Cons PATTERN_match_None by simp
      ultimately have "spec_scan (c # s') (finditer s')" by (rule scan_skip[rotated])
      then show ?thesis using None Cons finditer_miss by simp
    qed
  next
    case (Some w)
    obtain p h r where w: "w = (p, h, r)" by (cases w) auto
    have m: "PATTERN_match s = Some (p, h, r)" using Some w by simp
    then have d: "is_path p" "is_hash h" "s = PREFIX @ p @ ''@'' @ h @ r"
      by (simp_all add: PATTERN_match_Some)
    have "spec_scan r (finditer r)" using 1(2)[OF Some w[symmetric] refl] .
    then have "spec_scan (PREFIX @ p @ ''@'' @ h @ r) ((PREFIX @ p @ ''@'' @ h, p, h) # finditer r)"
      using d(1,2) by (intro scan_ref)
    moreover have "take (length s - length r) s = PREFIX @ p @ ''@'' @ h" using d(3) by simp
    ultimately show ?thesis using finditer_hit[OF m] d(3) by simp
  qed
qed

lemma spec_finditer: "spec_scan s ms \<Longrightarrow> finditer s = ms"
proof (induction rule: spec_scan.induct)
  case scan_end
  show ?case by (rule finditer_Nil)
next
  case (scan_ref p h rest ms)
  have m: "PATTERN_match (PREFIX @ p @ ''@'' @ h @ rest) = Some (p, h, rest)"
    using scan_ref(1,2) by (simp add: PATTERN_match_Some)
  show ?case using finditer_hit[OF m] scan_ref(4) by simp
next
  case (scan_skip c s ms)
  have "PATTERN_match (c # s) = None" using scan_skip(1) by (simp add: PATTERN_match_None)
  then show ?case using finditer_miss scan_skip(3) by simp
qed

lemma finditer_groups:
  "(g0, g1, g2) \<in> set (finditer s) \<Longrightarrow> is_path g1 \<and> is_hash g2 \<and> g0 = PREFIX @ g1 @ ''@'' @ g2"
proof -
  have "spec_scan s ms \<Longrightarrow> (g0, g1, g2) \<in> set ms \<Longrightarrow>
      is_path g1 \<and> is_hash g2 \<and> g0 = PREFIX @ g1 @ ''@'' @ g2" for ms
    by (induction rule: spec_scan.induct) auto
  then show "(g0, g1, g2) \<in> set (finditer s) \<Longrightarrow> ?thesis" using finditer_spec by blast
qed

lemma dir_char_not_space: "dir_char c \<Longrightarrow> \<not> isspace c"
  by (auto simp: dir_char_def isspace_def)

lemma hex_char_not_space: "hex_char c \<Longrightarrow> \<not> isspace c"
  by (auto simp: hex_char_def isspace_def)

lemma not_at_space_not_space: "not_at_space c \<Longrightarrow> \<not> isspace c"
  by (simp add: not_at_space_def)

lemma is_hash_no_space: "is_hash h \<Longrightarrow> \<not> list_ex isspace h"
  unfolding is_hash_def list_all_iff list_ex_iff using hex_char_not_space by blast

lemma is_path_no_space: "is_path p \<Longrightarrow> \<not> list_ex isspace p"
proof -
  assume "is_path p"
  then consider "workflow_path p" | "dir_path p" unfolding is_path_def by blast
  then show ?thesis
  proof cases
    case 1
    then obtain q where q: "p = ''.github/workflows/'' @ q" "list_all not_at_space q"
      unfolding workflow_path_def by blast
    have "\<not> list_ex isspace q"
      using q(2) not_at_space_not_space unfolding list_all_iff list_ex_iff by blast
    moreover have "\<not> list_ex isspace ''.github/workflows/''" by (simp add: isspace_def)
    ultimately show ?thesis using q(1) by (simp add: list_ex_iff)
  next
    case 2
    then show ?thesis
      unfolding dir_path_def list_all_iff list_ex_iff using dir_char_not_space by blast
  qed
qed

record ActionReference =
  full_match :: string
  action_path :: string
  current_hash :: string

definition mk_reference :: "string \<times> string \<times> string \<Rightarrow> ActionReference" where
  "mk_reference m =
     (case m of (g0, g1, g2) \<Rightarrow> \<lparr>full_match = g0, action_path = g1, current_hash = g2\<rparr>)"

text \<open>
  \<^verbatim>\<open>find_action_references\<close> returns a Python \<^verbatim>\<open>set\<close>. The program only iterates
  over it, in an order the language does not fix. The order is a parameter of the model: a
  function that lists the distinct elements of the matches found, in some order.
\<close>

type_synonym set_order = "ActionReference list \<Rightarrow> ActionReference list"

definition is_set_order :: "set_order \<Rightarrow> bool" where
  "is_set_order order \<longleftrightarrow> (\<forall>xs. distinct (order xs) \<and> set (order xs) = set xs)"

definition references_in :: "set_order \<Rightarrow> string \<Rightarrow> ActionReference list" where
  "references_in order content = order (map mk_reference (finditer content))"

section \<open>Files\<close>

text \<open>
  The directory given on the command line is a tree. A path is the list of names from
  that directory down; a name is looked up as the first entry of that name. A file is
  given by the text that its content decodes to in the encoding of the locale, with its
  line ends as they are stored; a file whose content does not decode is a node of its
  own. Every path names a file or a directory of its own: hard links and symbolic links,
  by which two paths name one file, are not part of the tree.
\<close>

datatype error =
  AssertionError | CalledProcessError | IsADirectoryError | NotADirectoryError
  | FileNotFoundError | KeyError | UnicodeDecodeError

datatype node = File string | Undecodable | Dir "(string \<times> node) list"

type_synonym path = "string list"

text \<open>
  A file opened in text mode is read with universal newlines: a carriage return followed
  by a line feed, and a carriage return alone, are each read as one line feed.
\<close>

fun universal_newlines :: "string \<Rightarrow> string" where
  "universal_newlines [] = []"
| "universal_newlines [c] = [if c = CHR 0x0D then CHR 0x0A else c]"
| "universal_newlines (c # d # s) =
     (if c = CHR 0x0D \<and> d = CHR 0x0A then CHR 0x0A # universal_newlines s
      else if c = CHR 0x0D then CHR 0x0A # universal_newlines (d # s)
      else c # universal_newlines (d # s))"

text \<open>
  \<^verbatim>\<open>Path.read_text\<close> opens the file at a path, decodes its content and translates the
  line ends. \<open>file_text\<close> is the first two steps: the text stored at the path, or the
  exception raised by opening or decoding it.
\<close>

fun file_text :: "node \<Rightarrow> path \<Rightarrow> error + string" where
  "file_text n [] =
     (case n of
        File content \<Rightarrow> Inr content
      | Undecodable \<Rightarrow> Inl UnicodeDecodeError
      | Dir es \<Rightarrow> Inl IsADirectoryError)"
| "file_text n (x # xs) =
     (case n of
        File content \<Rightarrow> Inl NotADirectoryError
      | Undecodable \<Rightarrow> Inl NotADirectoryError
      | Dir es \<Rightarrow>
          (case map_of es x of
             None \<Rightarrow> Inl FileNotFoundError
           | Some child \<Rightarrow> file_text child xs))"

definition read_text :: "node \<Rightarrow> path \<Rightarrow> error + string" where
  "read_text n p =
     (case file_text n p of
        Inl e \<Rightarrow> Inl e
      | Inr content \<Rightarrow> Inr (universal_newlines content))"

text \<open>
  \<^verbatim>\<open>Path.write_text\<close> opens the file for writing, which creates or truncates it, and
  stores the text; a line feed is written as the line separator of the platform, which is
  the line feed itself where the script runs.
\<close>

fun write_text :: "node \<Rightarrow> path \<Rightarrow> string \<Rightarrow> error + node" where
  "write_text n [] data =
     (case n of
        File content \<Rightarrow> Inr (File data)
      | Undecodable \<Rightarrow> Inr (File data)
      | Dir es \<Rightarrow> Inl IsADirectoryError)"
| "write_text n (x # xs) data =
     (case n of
        File content \<Rightarrow> Inl NotADirectoryError
      | Undecodable \<Rightarrow> Inl NotADirectoryError
      | Dir es \<Rightarrow>
          (case map_of es x of
             None \<Rightarrow> (if xs = [] then Inr (Dir (es @ [(x, File data)])) else Inl FileNotFoundError)
           | Some child \<Rightarrow>
               (case write_text child xs data of
                  Inl e \<Rightarrow> Inl e
                | Inr child' \<Rightarrow> Inr (Dir (AList.update x child' es)))))"

text \<open>
  \<^verbatim>\<open>directory.rglob("*.yml")\<close>: in every directory of the tree, the entries whose name
  matches \<^verbatim>\<open>*.yml\<close>, that is, ends in \<^verbatim>\<open>.yml\<close> (names are compared as they are
  written). A directory's own matching entries come first, then those of its
  subdirectories in turn.
\<close>

definition fnmatch_yml :: "string \<Rightarrow> bool" where
  "fnmatch_yml name \<longleftrightarrow> suffix ''.yml'' name"

fun rglob :: "path \<Rightarrow> node \<Rightarrow> path list"
  and rglob_sub :: "path \<Rightarrow> (string \<times> node) list \<Rightarrow> path list" where
  "rglob p (File content) = []"
| "rglob p Undecodable = []"
| "rglob p (Dir es) = map (\<lambda>e. p @ [fst e]) (filter (\<lambda>e. fnmatch_yml (fst e)) es) @ rglob_sub p es"
| "rglob_sub p [] = []"
| "rglob_sub p (e # es) = rglob (p @ [fst e]) (snd e) @ rglob_sub p es"

text \<open>
  \<^verbatim>\<open>find_action_references(file_path)\<close> and \<^verbatim>\<open>collect_all_references(directory)\<close>.
  The result is a \<^verbatim>\<open>dict\<close> from path to references, kept as an association list in
  insertion order; assigning to a key that is present replaces its value in place.
\<close>

definition find_action_references :: "set_order \<Rightarrow> node \<Rightarrow> path \<Rightarrow> error + ActionReference list" where
  "find_action_references order d file_path =
     (case read_text d file_path of
        Inl e \<Rightarrow> Inl e
      | Inr content \<Rightarrow> Inr (references_in order content))"

fun collect_loop :: "set_order \<Rightarrow> node \<Rightarrow> path list \<Rightarrow> (path \<times> ActionReference list) list
    \<Rightarrow> error + (path \<times> ActionReference list) list" where
  "collect_loop order d [] all_references = Inr all_references"
| "collect_loop order d (yaml_file # rest) all_references =
     (case find_action_references order d yaml_file of
        Inl e \<Rightarrow> Inl e
      | Inr references \<Rightarrow>
          (if references \<noteq> []
           then collect_loop order d rest (AList.update yaml_file references all_references)
           else collect_loop order d rest all_references))"

definition collect_all_references :: "set_order \<Rightarrow> node \<Rightarrow> error + (path \<times> ActionReference list) list" where
  "collect_all_references order directory = collect_loop order directory (rglob [] directory) []"

text \<open>The references of the file at a path, none when it cannot be read.\<close>

definition references_at :: "set_order \<Rightarrow> node \<Rightarrow> path \<Rightarrow> ActionReference list" where
  "references_at order d file =
     (case read_text d file of Inl e \<Rightarrow> [] | Inr content \<Rightarrow> references_in order content)"

section \<open>Resolver\<close>

text \<open>
  The history query is a child process: \<^verbatim>\<open>git log -n 1 --pretty=format:%H -- path\<close> in
  the actions repository. It is a parameter of the model: for each path, the exit status
  and the standard output of the process, as the text that \<^verbatim>\<open>subprocess.run\<close> returns
  with \<^verbatim>\<open>text=True\<close>. \<^verbatim>\<open>check=True\<close> raises on a non-zero status,
  and the \<^verbatim>\<open>assert\<close> raises on an empty hash (assertions are executed, as the
  interpreter does unless it is started with \<^verbatim>\<open>-O\<close>).
\<close>

record CompletedProcess =
  returncode :: int
  stdout :: string

type_synonym git = "string \<Rightarrow> CompletedProcess"

definition strip :: "string \<Rightarrow> string" where
  "strip s = rev (dropWhile isspace (rev (dropWhile isspace s)))"

definition get_latest_commit_for_path :: "git \<Rightarrow> string \<Rightarrow> error + string" where
  "get_latest_commit_for_path git target_path =
     (let result = git target_path in
      if returncode result \<noteq> 0 then Inl CalledProcessError
      else (let commit_hash = strip (stdout result) in
            if commit_hash = [] then Inl AssertionError else Inr commit_hash))"

text \<open>
  \<^verbatim>\<open>get_hash_mapping\<close>. The state of the two loops is the mapping built so far and the
  paths queried so far, in order; the queries made stay made when a query raises.
\<close>

fun resolve_refs :: "git \<Rightarrow> ActionReference list \<Rightarrow> (string \<rightharpoonup> string) \<times> string list
    \<Rightarrow> (error + (string \<rightharpoonup> string)) \<times> string list" where
  "resolve_refs git [] (hash_mapping, log) = (Inr hash_mapping, log)"
| "resolve_refs git (ref # refs) (hash_mapping, log) =
     (case hash_mapping (action_path ref) of
        Some h \<Rightarrow> resolve_refs git refs (hash_mapping, log)
      | None \<Rightarrow>
          (case get_latest_commit_for_path git (action_path ref) of
             Inl e \<Rightarrow> (Inl e, log @ [action_path ref])
           | Inr latest_hash \<Rightarrow>
               resolve_refs git refs
                 (hash_mapping(action_path ref \<mapsto> latest_hash), log @ [action_path ref])))"

fun resolve_files :: "git \<Rightarrow> (path \<times> ActionReference list) list \<Rightarrow> (string \<rightharpoonup> string) \<times> string list
    \<Rightarrow> (error + (string \<rightharpoonup> string)) \<times> string list" where
  "resolve_files git [] (hash_mapping, log) = (Inr hash_mapping, log)"
| "resolve_files git (fr # rest) (hash_mapping, log) =
     (case resolve_refs git (snd fr) (hash_mapping, log) of
        (Inl e, log') \<Rightarrow> (Inl e, log')
      | (Inr hash_mapping', log') \<Rightarrow> resolve_files git rest (hash_mapping', log'))"

definition get_hash_mapping :: "git \<Rightarrow> (path \<times> ActionReference list) list
    \<Rightarrow> (error + (string \<rightharpoonup> string)) \<times> string list" where
  "get_hash_mapping git all_references = resolve_files git all_references (Map.empty, [])"

text \<open>
  A query fails when the process exits with a non-zero status or prints nothing but white
  space. The referenced paths are the paths of all references of a scan result. The loop
  invariant of the resolver: the mapping holds exactly the paths queried so far, each once,
  with the hash its query returned. After an abort, the query that raised is the last one
  made and no query before it failed.
\<close>

definition query_fails :: "git \<Rightarrow> string \<Rightarrow> bool" where
  "query_fails git p \<longleftrightarrow> returncode (git p) \<noteq> 0 \<or> strip (stdout (git p)) = []"

definition referenced_paths :: "(path \<times> ActionReference list) list \<Rightarrow> string set" where
  "referenced_paths all_references = action_path ` (\<Union>fr\<in>set all_references. set (snd fr))"

definition resolved_so_far :: "git \<Rightarrow> (string \<rightharpoonup> string) \<times> string list \<Rightarrow> bool" where
  "resolved_so_far git st \<longleftrightarrow>
     dom (fst st) = set (snd st) \<and> distinct (snd st) \<and>
     (\<forall>p h. fst st p = Some h \<longrightarrow> get_latest_commit_for_path git p = Inr h)"

definition aborted_at :: "git \<Rightarrow> error \<Rightarrow> string list \<Rightarrow> bool" where
  "aborted_at git e log \<longleftrightarrow>
     log \<noteq> [] \<and> distinct log \<and> get_latest_commit_for_path git (last log) = Inl e \<and>
     (\<forall>q\<in>set (butlast log). \<not> query_fails git q)"

section \<open>Rewriter\<close>

text \<open>
  \<^verbatim>\<open>content.replace(old, new)\<close>: every occurrence of \<open>old\<close>, from the left, without
  overlap. With an empty \<open>old\<close>, Python puts \<open>new\<close> before every character and at the
  end.
\<close>

function replace :: "string \<Rightarrow> string \<Rightarrow> string \<Rightarrow> string" where
  "replace old new [] = (if old = [] then new else [])"
| "replace old new (c # s) =
     (if old = [] then new @ c # replace old new s
      else if take (length old) (c # s) = old
      then new @ replace old new (drop (length old) (c # s))
      else c # replace old new s)"
  by pat_completeness auto
termination
  by (relation "measure (\<lambda>(old, new, s). length s)") auto

declare replace.simps [simp del]

text \<open>
  The loop over the references of one file. The state is the content, the substitutions
  reported so far (file, old reference, new reference) and \<^verbatim>\<open>total_updates\<close>.
  \<^verbatim>\<open>hash_mapping[ref.action_path]\<close> raises on a missing key.
\<close>

type_synonym report = "path \<times> string \<times> string"

fun rewrite_refs :: "(string \<rightharpoonup> string) \<Rightarrow> path \<Rightarrow> ActionReference list
    \<Rightarrow> string \<times> report list \<times> nat \<Rightarrow> error option \<times> string \<times> report list \<times> nat" where
  "rewrite_refs hash_mapping file [] st = (None, st)"
| "rewrite_refs hash_mapping file (ref # refs) (content, out, total_updates) =
     (case hash_mapping (action_path ref) of
        None \<Rightarrow> (Some KeyError, content, out, total_updates)
      | Some latest_hash \<Rightarrow>
          (if current_hash ref = latest_hash
           then rewrite_refs hash_mapping file refs (content, out, total_updates)
           else (let old_ref = full_match ref;
                     new_ref = PREFIX @ action_path ref @ ''@'' @ latest_hash
                 in rewrite_refs hash_mapping file refs
                      (replace old_ref new_ref content, out @ [(file, old_ref, new_ref)],
                       total_updates + 1))))"

text \<open>
  The loop over the files. The state is the directory tree, the paths written so far, the
  reports, \<^verbatim>\<open>total_updates\<close> and \<^verbatim>\<open>files_modified\<close>.
\<close>

fun update_files :: "bool \<Rightarrow> (string \<rightharpoonup> string) \<Rightarrow> (path \<times> ActionReference list) list
    \<Rightarrow> node \<times> path list \<times> report list \<times> nat \<times> nat
    \<Rightarrow> error option \<times> node \<times> path list \<times> report list \<times> nat \<times> nat" where
  "update_files dry_run hash_mapping [] st = (None, st)"
| "update_files dry_run hash_mapping (fr # rest) (d, ws, out, total_updates, files_modified) =
     (case read_text d (fst fr) of
        Inl e \<Rightarrow> (Some e, d, ws, out, total_updates, files_modified)
      | Inr old_content \<Rightarrow>
          (case rewrite_refs hash_mapping (fst fr) (snd fr) (old_content, out, total_updates) of
             (Some e, content, out', total_updates') \<Rightarrow>
               (Some e, d, ws, out', total_updates', files_modified)
           | (None, content, out', total_updates') \<Rightarrow>
               (if content = old_content
                then update_files dry_run hash_mapping rest
                       (d, ws, out', total_updates', files_modified)
                else if dry_run
                then update_files dry_run hash_mapping rest
                       (d, ws, out', total_updates', files_modified + 1)
                else (case write_text d (fst fr) content of
                        Inl e \<Rightarrow> (Some e, d, ws, out', total_updates', files_modified + 1)
                      | Inr d' \<Rightarrow>
                          update_files dry_run hash_mapping rest
                            (d', ws @ [fst fr], out', total_updates', files_modified + 1)))))"

text \<open>
  \<^verbatim>\<open>main\<close>. The result of a run: the exception that ended it, if any; the directory
  tree afterwards; the paths written, in order; the substitutions reported; the two
  counters; the history queries made. The lines printed while scanning, the two banners
  and the summary line, which only phrase the counters, are not modelled.
\<close>

record run =
  failure :: "error option"
  disk :: node
  written :: "path list"
  reports :: "report list"
  total_updates :: nat
  files_modified :: nat
  queries :: "string list"

definition main :: "set_order \<Rightarrow> git \<Rightarrow> bool \<Rightarrow> node \<Rightarrow> run" where
  "main order git dry_run directory =
     (case directory of
        File content \<Rightarrow>
          \<lparr>failure = Some AssertionError, disk = directory, written = [], reports = [],
           total_updates = 0, files_modified = 0, queries = []\<rparr>
      | Undecodable \<Rightarrow>
          \<lparr>failure = Some AssertionError, disk = directory, written = [], reports = [],
           total_updates = 0, files_modified = 0, queries = []\<rparr>
      | Dir es \<Rightarrow>
          (case collect_all_references order directory of
             Inl e \<Rightarrow>
               \<lparr>failure = Some e, disk = directory, written = [], reports = [],
                total_updates = 0, files_modified = 0, queries = []\<rparr>
           | Inr all_references \<Rightarrow>
               (case get_hash_mapping git all_references of
                  (Inl e, log) \<Rightarrow>
                    \<lparr>failure = Some e, disk = directory, written = [], reports = [],
                     total_updates = 0, files_modified = 0, queries = log\<rparr>
                | (Inr hash_mapping, log) \<Rightarrow>
                    (case update_files dry_run hash_mapping all_references
                            (directory, [], [], 0, 0) of
                       (err, d, ws, out, n_updates, n_files) \<Rightarrow>
                         \<lparr>failure = err, disk = d, written = ws, reports = out,
                          total_updates = n_updates, files_modified = n_files,
                          queries = log\<rparr>))))"

text \<open>
  Names for what the loops compute: a reference is stale when the mapping does not give
  its current hash; the content of a file after the loop over its references, and the
  substitutions that loop reports; the content of the file at a path; a file is changed
  when its content after the loop differs from its content before.
\<close>

definition stale :: "(string \<rightharpoonup> string) \<Rightarrow> ActionReference \<Rightarrow> bool" where
  "stale hash_mapping ref \<longleftrightarrow> hash_mapping (action_path ref) \<noteq> Some (current_hash ref)"

definition rewritten :: "(string \<rightharpoonup> string) \<Rightarrow> ActionReference list \<Rightarrow> string \<Rightarrow> string" where
  "rewritten hash_mapping refs content =
     fst (snd (rewrite_refs hash_mapping [] refs (content, [], 0)))"

definition file_reports :: "(string \<rightharpoonup> string) \<Rightarrow> path \<Rightarrow> ActionReference list \<Rightarrow> string \<Rightarrow> report list" where
  "file_reports hash_mapping file refs content =
     fst (snd (snd (rewrite_refs hash_mapping file refs (content, [], 0))))"

definition content_at :: "node \<Rightarrow> path \<Rightarrow> string" where
  "content_at d file = (case read_text d file of Inl e \<Rightarrow> [] | Inr content \<Rightarrow> content)"

definition changed :: "(string \<rightharpoonup> string) \<Rightarrow> node \<Rightarrow> path \<times> ActionReference list \<Rightarrow> bool" where
  "changed hm d fr \<longleftrightarrow> rewritten hm (snd fr) (content_at d (fst fr)) \<noteq> content_at d (fst fr)"

text \<open>
  The text of a reference to a path at a hash. What \<^verbatim>\<open>git log --pretty=format:%H\<close>
  prints for a commit is its full hash: at least forty lower-case hexadecimal digits. A
  scanned reference is one whose three fields are a path, a hash and the text made of them.
\<close>

definition ref_text :: "string \<Rightarrow> string \<Rightarrow> string" where
  "ref_text p h = PREFIX @ p @ ''@'' @ h"

definition commit_hash :: "string \<Rightarrow> bool" where
  "commit_hash t \<longleftrightarrow> 40 \<le> length t \<and> list_all hex_char t"

definition scanned_reference :: "ActionReference \<Rightarrow> bool" where
  "scanned_reference ref \<longleftrightarrow>
     is_path (action_path ref) \<and> is_hash (current_hash ref) \<and>
     full_match ref = ref_text (action_path ref) (current_hash ref)"

text \<open>
  Two texts are the same outside the references of the first: where the scanner finds a
  reference in the first text, the second has the same prefix, path and at sign, followed
  by a commit hash; everywhere else the two texts have the same character.
\<close>

inductive same_outside_references :: "string \<Rightarrow> string \<Rightarrow> bool" where
  same_end: "same_outside_references [] []"
| same_ref: "is_path p \<Longrightarrow> is_hash h \<Longrightarrow> commit_hash t \<Longrightarrow> same_outside_references r r' \<Longrightarrow>
     same_outside_references (PREFIX @ p @ ''@'' @ h @ r) (PREFIX @ p @ ''@'' @ t @ r')"
| same_char: "PATTERN_match (c # s) = None \<Longrightarrow> same_outside_references s s' \<Longrightarrow>
     same_outside_references (c # s) (c # s')"

section \<open>Properties of the scanner\<close>

lemma references_in_set:
  "is_set_order order \<Longrightarrow> set (references_in order content) = mk_reference ` set (finditer content)"
  by (simp add: is_set_order_def references_in_def)

lemma reference_fields:
  assumes "ref \<in> mk_reference ` set (finditer content)"
  shows "full_match ref = PREFIX @ action_path ref @ ''@'' @ current_hash ref
    \<and> is_path (action_path ref) \<and> is_hash (current_hash ref)"
proof -
  from assms obtain g0 g1 g2 where m: "(g0, g1, g2) \<in> set (finditer content)"
    and r: "ref = mk_reference (g0, g1, g2)" by auto
  from finditer_groups[OF m] r show ?thesis by (simp add: mk_reference_def)
qed

lemma rewrite_refs_reports:
  "rewrite_refs hm file refs (c, out0, n0) = (err, c', out, n') \<Longrightarrow> r \<in> set out \<Longrightarrow>
     r \<in> set out0 \<or>
     (\<exists>ref\<in>set refs. \<exists>latest. hm (action_path ref) = Some latest \<and> current_hash ref \<noteq> latest \<and>
        r = (file, full_match ref, PREFIX @ action_path ref @ ''@'' @ latest))"
proof (induction refs arbitrary: c out0 n0)
  case Nil
  then show ?case by simp
next
  case (Cons ref refs)
  show ?case
  proof (cases "hm (action_path ref)")
    case None
    with Cons.prems show ?thesis by simp
  next
    case (Some latest)
    show ?thesis
    proof (cases "current_hash ref = latest")
      case True
      with Some Cons.prems have "rewrite_refs hm file refs (c, out0, n0) = (err, c', out, n')" by simp
      from Cons.IH[OF this Cons.prems(2)] show ?thesis by auto
    next
      case False
      let ?new = "PREFIX @ action_path ref @ ''@'' @ latest"
      from False Some Cons.prems have
        "rewrite_refs hm file refs (replace (full_match ref) ?new c, out0 @ [(file, full_match ref, ?new)], n0 + 1)
           = (err, c', out, n')" by (simp add: Let_def)
      from Cons.IH[OF this Cons.prems(2)] show ?thesis using Some False by auto
    qed
  qed
qed

lemma finditer_ref:
  "is_path p \<Longrightarrow> is_hash h \<Longrightarrow>
     finditer (PREFIX @ p @ ''@'' @ h @ r) = (PREFIX @ p @ ''@'' @ h, p, h) # finditer r"
  using finditer_spec scan_ref spec_finditer by blast

lemma finditer_skip: "CHR ''X'' \<notin> set g \<Longrightarrow> finditer (g @ s) = finditer s"
proof (induction g)
  case Nil
  show ?case by simp
next
  case (Cons c g)
  then have "c \<noteq> CHR ''X''" by auto
  then have "finditer (c # g @ s) = finditer (g @ s)"
    by (intro finditer_miss PATTERN_match_not_X)
  then show ?case using Cons by simp
qed

lemma finditer_no_X: "CHR ''X'' \<notin> set s \<Longrightarrow> finditer s = []"
  using finditer_skip[of s "[]"] by (simp add: finditer_Nil)

section \<open>Properties of the directory walk\<close>

lemma universal_newlines_id: "CHR 0x0D \<notin> set s \<Longrightarrow> universal_newlines s = s"
  by (induction s rule: universal_newlines.induct) auto

lemma universal_newlines_no_CR: "CHR 0x0D \<notin> set (universal_newlines s)"
  by (induction s rule: universal_newlines.induct) auto

lemma universal_newlines_skip:
  "CHR 0x0D \<notin> set s \<Longrightarrow> universal_newlines (s @ t) = s @ universal_newlines t"
proof (induction s)
  case Nil
  show ?case by simp
next
  case (Cons c s)
  then have c: "c \<noteq> CHR 0x0D" and ih: "universal_newlines (s @ t) = s @ universal_newlines t"
    by auto
  show ?case
  proof (cases "s @ t")
    case Nil
    with c show ?thesis by simp
  next
    case (Cons d u)
    with c ih show ?thesis by simp
  qed
qed

lemma read_text_Inr:
  "read_text d p = Inr c \<longleftrightarrow> (\<exists>t. file_text d p = Inr t \<and> c = universal_newlines t)"
  by (cases "file_text d p") (auto simp: read_text_def)


lemma read_text_File:
  "file_text d p = Inr c \<Longrightarrow> CHR 0x0D \<notin> set c \<Longrightarrow> read_text d p = Inr c"
  by (simp add: read_text_def universal_newlines_id)






lemma collect_loop_map:
  "collect_loop order d ps acc = Inr all_references \<Longrightarrow>
     map_of all_references =
       (\<lambda>f. if f \<in> set ps \<and> references_at order d f \<noteq> [] then Some (references_at order d f)
            else map_of acc f)"
proof (induction ps arbitrary: acc)
  case Nil
  then show ?case by simp
next
  case (Cons yaml_file rest)
  from Cons.prems obtain content where rd: "read_text d yaml_file = Inr content"
    by (cases "read_text d yaml_file") (auto simp: find_action_references_def)
  then have ra: "references_at order d yaml_file = references_in order content"
    by (simp add: references_at_def)
  show ?case
  proof (cases "references_in order content = []")
    case True
    with Cons.prems rd have "collect_loop order d rest acc = Inr all_references"
      by (simp add: find_action_references_def)
    from Cons.IH[OF this] show ?thesis using True ra by auto
  next
    case False
    with Cons.prems rd have
      "collect_loop order d rest (AList.update yaml_file (references_in order content) acc)
         = Inr all_references"
      by (simp add: find_action_references_def)
    from Cons.IH[OF this] show ?thesis using False ra by (auto simp: update_conv')
  qed
qed

lemma collect_loop_distinct:
  "collect_loop order d ps acc = Inr all_references \<Longrightarrow> distinct (map fst acc) \<Longrightarrow>
     distinct (map fst all_references)"
proof (induction ps arbitrary: acc)
  case Nil
  then show ?case by simp
next
  case (Cons yaml_file rest)
  from Cons.prems(1) obtain content where rd: "read_text d yaml_file = Inr content"
    by (cases "read_text d yaml_file") (auto simp: find_action_references_def)
  show ?case
  proof (cases "references_in order content = []")
    case True
    with Cons.prems rd have "collect_loop order d rest acc = Inr all_references"
      by (simp add: find_action_references_def)
    from Cons.IH[OF this Cons.prems(2)] show ?thesis .
  next
    case False
    with Cons.prems rd have
      "collect_loop order d rest (AList.update yaml_file (references_in order content) acc)
         = Inr all_references"
      by (simp add: find_action_references_def)
    from Cons.IH[OF this] Cons.prems(2) show ?thesis by (simp add: distinct_update)
  qed
qed

lemma collect_loop_reads:
  "collect_loop order d ps acc = Inr all_references \<Longrightarrow> f \<in> set ps \<Longrightarrow>
     \<exists>content. read_text d f = Inr content"
proof (induction ps arbitrary: acc)
  case Nil
  then show ?case by simp
next
  case (Cons yaml_file rest)
  from Cons.prems(1) obtain content where rd: "read_text d yaml_file = Inr content"
    by (cases "read_text d yaml_file") (auto simp: find_action_references_def)
  with Cons show ?case
    by (cases "f = yaml_file") (auto simp: find_action_references_def split: if_splits)
qed

lemma collect_all_references_entries:
  assumes "collect_all_references order directory = Inr all_references"
  shows "distinct (map fst all_references)"
    and "(file, refs) \<in> set all_references \<longleftrightarrow>
           file \<in> set (rglob [] directory) \<and> refs \<noteq> [] \<and>
           (\<exists>content. read_text directory file = Inr content \<and> refs = references_in order content)"
proof -
  note c = assms[unfolded collect_all_references_def]
  show d: "distinct (map fst all_references)"
    using collect_loop_distinct[OF c] by simp
  have "(file, refs) \<in> set all_references \<longleftrightarrow> map_of all_references file = Some refs"
    using d by simp
  also have "\<dots> \<longleftrightarrow> file \<in> set (rglob [] directory) \<and> references_at order directory file \<noteq> [] \<and>
       refs = references_at order directory file"
    unfolding collect_loop_map[OF c] by auto
  also have "\<dots> \<longleftrightarrow> file \<in> set (rglob [] directory) \<and> refs \<noteq> [] \<and>
           (\<exists>content. read_text directory file = Inr content \<and> refs = references_in order content)"
    using collect_loop_reads[OF c, of "file"] by (auto simp: references_at_def)
  finally show "(file, refs) \<in> set all_references \<longleftrightarrow>
           file \<in> set (rglob [] directory) \<and> refs \<noteq> [] \<and>
           (\<exists>content. read_text directory file = Inr content \<and> refs = references_in order content)" .
qed





section \<open>Properties of the resolver\<close>

lemma query_fails_iff:
  "query_fails git p \<longleftrightarrow>
     get_latest_commit_for_path git p =
       Inl (if returncode (git p) \<noteq> 0 then CalledProcessError else AssertionError)"
  by (auto simp: query_fails_def get_latest_commit_for_path_def Let_def)

lemma query_ok_iff:
  "\<not> query_fails git p \<longleftrightarrow> get_latest_commit_for_path git p = Inr (strip (stdout (git p)))"
  by (auto simp: query_fails_def get_latest_commit_for_path_def Let_def)

lemma resolved_not_failing:
  "resolved_so_far git (hm, log) \<Longrightarrow> q \<in> set log \<Longrightarrow> \<not> query_fails git q"
proof -
  assume r: "resolved_so_far git (hm, log)" and q: "q \<in> set log"
  then have "q \<in> dom hm" by (simp add: resolved_so_far_def)
  then obtain h where "hm q = Some h" by blast
  with r have "get_latest_commit_for_path git q = Inr h" by (simp add: resolved_so_far_def)
  then show ?thesis by (simp add: query_fails_iff)
qed

lemma resolve_refs_inv:
  assumes "resolved_so_far git (hm, log)" "resolve_refs git refs (hm, log) = (res, log')"
  shows "case res of
           Inr hm' \<Rightarrow> resolved_so_far git (hm', log') \<and> set log' = set log \<union> action_path ` set refs
         | Inl e \<Rightarrow> aborted_at git e log' \<and> last log' \<in> action_path ` set refs"
  using assms
proof (induction refs arbitrary: hm log)
  case Nil
  then show ?case by auto
next
  case (Cons ref refs)
  show ?case
  proof (cases "hm (action_path ref)")
    case (Some h)
    with Cons.prems have s: "resolve_refs git refs (hm, log) = (res, log')" by simp
    from Some Cons.prems(1) have "action_path ref \<in> set log"
      by (auto simp: resolved_so_far_def)
    with Cons.IH[OF Cons.prems(1) s] show ?thesis by (auto split: sum.splits)
  next
    case None
    then have new: "action_path ref \<notin> set log"
      using Cons.prems(1) by (auto simp: resolved_so_far_def)
    show ?thesis
    proof (cases "get_latest_commit_for_path git (action_path ref)")
      case (Inl e)
      with None Cons.prems(2) have r: "res = Inl e" "log' = log @ [action_path ref]" by auto
      have "\<forall>q\<in>set log. \<not> query_fails git q"
        using resolved_not_failing[OF Cons.prems(1)] by blast
      moreover have "distinct log" using Cons.prems(1) by (simp add: resolved_so_far_def)
      ultimately have "aborted_at git e log'"
        using r Inl new by (simp add: aborted_at_def)
      then show ?thesis using r by simp
    next
      case (Inr latest_hash)
      let ?hm = "hm(action_path ref \<mapsto> latest_hash)" and ?log = "log @ [action_path ref]"
      from None Inr Cons.prems(2) have s: "resolve_refs git refs (?hm, ?log) = (res, log')" by simp
      have inv: "resolved_so_far git (?hm, ?log)"
        using Cons.prems(1) new Inr by (auto simp: resolved_so_far_def)
      from Cons.IH[OF inv s] show ?thesis by (auto split: sum.splits)
    qed
  qed
qed

lemma resolve_files_inv:
  assumes "resolved_so_far git (hm, log)" "resolve_files git all_references (hm, log) = (res, log')"
  shows "case res of
           Inr hm' \<Rightarrow> resolved_so_far git (hm', log') \<and>
             set log' = set log \<union> referenced_paths all_references
         | Inl e \<Rightarrow> aborted_at git e log' \<and> last log' \<in> referenced_paths all_references"
  using assms
proof (induction all_references arbitrary: hm log)
  case Nil
  then show ?case by (auto simp: referenced_paths_def)
next
  case (Cons fr rest)
  obtain res1 log1 where s1: "resolve_refs git (snd fr) (hm, log) = (res1, log1)"
    by (cases "resolve_refs git (snd fr) (hm, log)") auto
  note i1 = resolve_refs_inv[OF Cons.prems(1) s1]
  show ?case
  proof (cases res1)
    case (Inl e)
    with s1 Cons.prems(2) have "res = Inl e" "log' = log1" by auto
    with i1 Inl show ?thesis by (auto simp: referenced_paths_def)
  next
    case (Inr hm1)
    with s1 Cons.prems(2) have s: "resolve_files git rest (hm1, log1) = (res, log')" by simp
    from i1 Inr have inv: "resolved_so_far git (hm1, log1)"
      and l1: "set log1 = set log \<union> action_path ` set (snd fr)" by auto
    from Cons.IH[OF inv s] l1 show ?thesis
      by (auto simp: referenced_paths_def split: sum.splits)
  qed
qed

lemma get_hash_mapping_cases:
  "case get_hash_mapping git all_references of
     (Inr hm, log) \<Rightarrow> resolved_so_far git (hm, log) \<and> set log = referenced_paths all_references
   | (Inl e, log) \<Rightarrow> aborted_at git e log \<and> last log \<in> referenced_paths all_references"
proof -
  obtain res log where s: "resolve_files git all_references (Map.empty, []) = (res, log)"
    by (cases "resolve_files git all_references (Map.empty, [])") auto
  have "resolved_so_far git (Map.empty, [])" by (simp add: resolved_so_far_def)
  from resolve_files_inv[OF this s] show ?thesis
    unfolding get_hash_mapping_def s by (auto split: sum.splits)
qed

section \<open>Properties of the rewriter\<close>

lemma rewrite_refs_state:
  "rewrite_refs hm file refs (c, out, n) =
     (case rewrite_refs hm file refs (c, [], 0) of (e, c', rs, k) \<Rightarrow> (e, c', out @ rs, n + k))"
proof (induction refs arbitrary: c out n)
  case Nil
  show ?case by simp
next
  case (Cons ref refs)
  show ?case
  proof (cases "hm (action_path ref)")
    case None
    then show ?thesis by simp
  next
    case (Some latest)
    show ?thesis
    proof (cases "current_hash ref = latest")
      case True
      with Some Cons.IH[of c out n] show ?thesis by simp
    next
      case False
      let ?c = "replace (full_match ref) (PREFIX @ action_path ref @ ''@'' @ latest) c"
      let ?r = "(file, full_match ref, PREFIX @ action_path ref @ ''@'' @ latest)"
      have 1: "rewrite_refs hm file (ref # refs) (c, out, n) = rewrite_refs hm file refs (?c, out @ [?r], n + 1)"
        using Some False by (simp add: Let_def)
      have 2: "rewrite_refs hm file (ref # refs) (c, [], 0) = rewrite_refs hm file refs (?c, [?r], 1)"
        using Some False by (simp add: Let_def)
      show ?thesis
        unfolding 1 2
        by (subst Cons.IH[of ?c "out @ [?r]" "n + 1"], subst Cons.IH[of ?c "[?r]" 1])
           (simp split: prod.splits)
    qed
  qed
qed

lemma rewrite_refs_content_indep:
  "fst (snd (rewrite_refs hm file refs (c, out, n))) =
   fst (snd (rewrite_refs hm file' refs (c, out', n')))"
proof (induction refs arbitrary: c out n out' n')
  case Nil
  show ?case by simp
next
  case (Cons ref refs)
  show ?case
  proof (cases "hm (action_path ref)")
    case None
    then show ?thesis by simp
  next
    case (Some latest)
    show ?thesis
    proof (cases "current_hash ref = latest")
      case True
      with Some Cons.IH[of c out n out' n'] show ?thesis by simp
    next
      case False
      let ?c = "replace (full_match ref) (PREFIX @ action_path ref @ ''@'' @ latest) c"
      let ?new = "PREFIX @ action_path ref @ ''@'' @ latest"
      have 1: "rewrite_refs hm file (ref # refs) (c, out, n) =
          rewrite_refs hm file refs (?c, out @ [(file, full_match ref, ?new)], n + 1)"
        using Some False by (simp add: Let_def)
      have 2: "rewrite_refs hm file' (ref # refs) (c, out', n') =
          rewrite_refs hm file' refs (?c, out' @ [(file', full_match ref, ?new)], n' + 1)"
        using Some False by (simp add: Let_def)
      show ?thesis unfolding 1 2 by (rule Cons.IH)
    qed
  qed
qed

lemma rewrite_refs_content:
  "fst (snd (rewrite_refs hm file refs (c, out, n))) = rewritten hm refs c"
  unfolding rewritten_def by (rule rewrite_refs_content_indep)

lemma rewrite_refs_ok:
  "\<forall>ref\<in>set refs. hm (action_path ref) \<noteq> None \<Longrightarrow>
     fst (rewrite_refs hm file refs (c, out, n)) = None \<and>
     snd (snd (snd (rewrite_refs hm file refs (c, out, n)))) = n + length (filter (stale hm) refs)"
proof (induction refs arbitrary: c out n)
  case Nil
  show ?case by simp
next
  case (Cons ref refs)
  then obtain latest where l: "hm (action_path ref) = Some latest" by auto
  from Cons have ih: "\<And>c out n. fst (rewrite_refs hm file refs (c, out, n)) = None \<and>
     snd (snd (snd (rewrite_refs hm file refs (c, out, n)))) = n + length (filter (stale hm) refs)"
    by simp
  show ?case
  proof (cases "current_hash ref = latest")
    case True
    then have "\<not> stale hm ref" using l by (simp add: stale_def)
    with True l ih[of c out n] show ?thesis by simp
  next
    case False
    then have "stale hm ref" using l by (auto simp: stale_def)
    with l False ih show ?thesis by (simp add: Let_def)
  qed
qed

lemma rewrite_refs_eq:
  assumes "\<forall>ref\<in>set refs. hm (action_path ref) \<noteq> None"
  shows "rewrite_refs hm file refs (c, out, n) =
     (None, rewritten hm refs c, out @ file_reports hm file refs c,
      n + length (filter (stale hm) refs))"
proof -
  obtain e c' rs k where r: "rewrite_refs hm file refs (c, [], 0) = (e, c', rs, k)"
    by (cases "rewrite_refs hm file refs (c, [], 0)") auto
  from rewrite_refs_ok[OF assms, of "file" c "[]" 0] r
  have "e = None" "k = length (filter (stale hm) refs)" by simp_all
  moreover from rewrite_refs_content[of hm "file" refs c "[]" 0] r have "c' = rewritten hm refs c"
    by simp
  moreover have "rs = file_reports hm file refs c" using r by (simp add: file_reports_def)
  ultimately show ?thesis
    by (subst rewrite_refs_state) (simp add: r)
qed

lemma rewritten_not_stale:
  "\<forall>ref\<in>set refs. \<not> stale hm ref \<Longrightarrow>
     rewritten hm refs c = c \<and> file_reports hm file refs c = []"
proof (induction refs)
  case Nil
  show ?case by (simp add: rewritten_def file_reports_def)
next
  case (Cons ref refs)
  then have "hm (action_path ref) = Some (current_hash ref)" by (simp add: stale_def)
  with Cons show ?case by (simp add: rewritten_def file_reports_def)
qed

lemma write_after_read:
  "file_text d p = Inr c \<Longrightarrow>
     \<exists>d'. write_text d p data = Inr d' \<and>
          (\<forall>q. file_text d' q = (if q = p then Inr data else file_text d q))"
proof (induction p arbitrary: d)
  case Nil
  then obtain c0 where d: "d = File c0" by (cases d) auto
  have "file_text (File data) q = (if q = [] then Inr data else file_text (File c0) q)" for q
    by (cases q) auto
  with d show ?case by simp
next
  case (Cons x xs)
  from Cons.prems obtain es ch where d: "d = Dir es" and ch: "map_of es x = Some ch"
    and rd: "file_text ch xs = Inr c"
    by (cases d) (auto split: option.splits)
  from Cons.IH[OF rd] obtain ch' where w: "write_text ch xs data = Inr ch'"
    and r: "\<And>q. file_text ch' q = (if q = xs then Inr data else file_text ch q)" by blast
  have "file_text (Dir (AList.update x ch' es)) q = (if q = x # xs then Inr data else file_text (Dir es) q)" for q
  proof (cases q)
    case Nil
    then show ?thesis by simp
  next
    case (Cons y ys)
    then show ?thesis using r ch by (auto simp: update_conv')
  qed
  with d ch w show ?case by simp
qed

lemma rglob_Dir_names:
  "rglob p (Dir es) = map (\<lambda>n. p @ [n]) (filter fnmatch_yml (map fst es)) @ rglob_sub p es"
  by (simp add: filter_map comp_def)

lemma update_keeps_walk:
  assumes "map_of es x = Some ch" "\<And>p. rglob p ch' = rglob p ch"
  shows "map fst (AList.update x ch' es) = map fst es \<and>
         rglob_sub p (AList.update x ch' es) = rglob_sub p es"
  using assms(1)
proof (induction es)
  case Nil
  then show ?case by simp
next
  case (Cons e es)
  show ?case
  proof (cases "fst e = x")
    case True
    with Cons.prems have "snd e = ch" by (cases e) auto
    with True assms(2) show ?thesis by simp
  next
    case False
    with Cons.prems have "map_of es x = Some ch" by (cases e) auto
    from Cons.IH[OF this] False show ?thesis by simp
  qed
qed

lemma write_keeps_walk:
  "file_text d p = Inr c \<Longrightarrow> write_text d p data = Inr d' \<Longrightarrow> rglob r d' = rglob r d"
proof (induction p arbitrary: d d' r)
  case Nil
  then show ?case by (cases d) auto
next
  case (Cons x xs)
  from Cons.prems(1) obtain es ch where d: "d = Dir es" and ch: "map_of es x = Some ch"
    and rd: "file_text ch xs = Inr c"
    by (cases d) (auto split: option.splits)
  from Cons.prems(2) d ch obtain ch' where w: "write_text ch xs data = Inr ch'"
    and d': "d' = Dir (AList.update x ch' es)"
    by (auto split: sum.splits)
  have "\<And>p. rglob p ch' = rglob p ch" using Cons.IH[OF rd w] .
  from update_keeps_walk[OF ch this] show ?case
    unfolding d d' rglob_Dir_names by simp
qed

text \<open>The result of the loop over the files, stated for the whole list.\<close>

lemma read_text_same: "file_text d' p = file_text d p \<Longrightarrow> read_text d' p = read_text d p"
  by (simp add: read_text_def)

lemma content_at_same: "file_text d' p = file_text d p \<Longrightarrow> content_at d' p = content_at d p"
  by (simp add: content_at_def read_text_def)

lemma update_files_result:
  assumes "distinct (map fst frs)"
    and "\<forall>fr\<in>set frs. \<exists>c. read_text d (fst fr) = Inr c"
    and "\<forall>fr\<in>set frs. \<forall>ref\<in>set (snd fr). hm (action_path ref) \<noteq> None"
  shows "\<exists>d'. update_files dry_run hm frs (d, ws, out, tu, fm) =
      (None, d',
       ws @ (if dry_run then [] else map fst (filter (changed hm d) frs)),
       out @ concat (map (\<lambda>fr. file_reports hm (fst fr) (snd fr) (content_at d (fst fr))) frs),
       tu + sum_list (map (\<lambda>fr. length (filter (stale hm) (snd fr))) frs),
       fm + length (filter (changed hm d) frs)) \<and>
     (dry_run \<or> filter (changed hm d) frs = [] \<longrightarrow> d' = d) \<and>
     (\<forall>r. rglob r d' = rglob r d) \<and>
     (\<forall>q. file_text d' q =
        (case map_of frs q of
           Some refs \<Rightarrow>
             if dry_run \<or> \<not> changed hm d (q, refs) then file_text d q
             else Inr (rewritten hm refs (content_at d q))
         | None \<Rightarrow> file_text d q))"
  using assms
proof (induction frs arbitrary: d ws out tu fm)
  case Nil
  show ?case by simp
next
  case (Cons fr rest)
  obtain f refs where fr: "fr = (f, refs)" by (cases fr) auto
  from Cons.prems(2) fr obtain c where rd: "read_text d f = Inr c" by auto
  then have ca: "content_at d f = c" by (simp add: content_at_def)
  from rd obtain t where ft: "file_text d f = Inr t" by (auto simp: read_text_Inr)
  from Cons.prems(3) fr have ok: "\<forall>ref\<in>set refs. hm (action_path ref) \<noteq> None" by simp
  note rw = rewrite_refs_eq[OF ok, of f c out tu]
  let ?c' = "rewritten hm refs c"
  let ?out = "out @ file_reports hm f refs c"
  let ?tu = "tu + length (filter (stale hm) refs)"
  have chg: "changed hm d fr \<longleftrightarrow> ?c' \<noteq> c" using fr ca by (simp add: changed_def)
  have dist: "distinct (map fst rest)" and fnot: "f \<notin> fst ` set rest"
    using Cons.prems(1) fr by auto
  have ok_rest: "\<forall>fr\<in>set rest. \<forall>ref\<in>set (snd fr). hm (action_path ref) \<noteq> None"
    using Cons.prems(3) by simp
  have nf: "map_of rest f = None" using fnot by (simp add: map_of_eq_None_iff)
  consider (same) "?c' = c" | (dry) "?c' \<noteq> c" "dry_run" | (wr) "?c' \<noteq> c" "\<not> dry_run" by blast
  then show ?case
  proof cases
    case same
    have step: "update_files dry_run hm (fr # rest) (d, ws, out, tu, fm) =
        update_files dry_run hm rest (d, ws, ?out, ?tu, fm)"
      using fr rd rw same by simp
    have rd_rest: "\<forall>fr\<in>set rest. \<exists>c. read_text d (fst fr) = Inr c" using Cons.prems(2) by simp
    from Cons.IH[OF dist rd_rest ok_rest, of ws ?out ?tu fm] obtain d' where
      u: "update_files dry_run hm rest (d, ws, ?out, ?tu, fm) =
        (None, d',
         ws @ (if dry_run then [] else map fst (filter (changed hm d) rest)),
         ?out @ concat (map (\<lambda>fr. file_reports hm (fst fr) (snd fr) (content_at d (fst fr))) rest),
         ?tu + sum_list (map (\<lambda>fr. length (filter (stale hm) (snd fr))) rest),
         fm + length (filter (changed hm d) rest))"
      and p: "dry_run \<or> filter (changed hm d) rest = [] \<longrightarrow> d' = d" "\<forall>r. rglob r d' = rglob r d"
        "\<forall>q. file_text d' q =
          (case map_of rest q of
             Some refs \<Rightarrow>
               if dry_run \<or> \<not> changed hm d (q, refs) then file_text d q
               else Inr (rewritten hm refs (content_at d q))
           | None \<Rightarrow> file_text d q)"
      by blast
    have rdq: "file_text d' q =
        (case map_of (fr # rest) q of
           Some refs \<Rightarrow>
             if dry_run \<or> \<not> changed hm d (q, refs) then file_text d q
             else Inr (rewritten hm refs (content_at d q))
         | None \<Rightarrow> file_text d q)" for q
    proof (cases "q = f")
      case True
      with p(3) nf have "file_text d' q = file_text d q" by simp
      with True fr chg same show ?thesis by simp
    next
      case False
      with p(3) fr show ?thesis by simp
    qed
    show ?thesis
      unfolding step u using p(1,2) rdq fr ca same chg by (intro exI[of _ d']) simp
  next
    case dry
    have step: "update_files dry_run hm (fr # rest) (d, ws, out, tu, fm) =
        update_files dry_run hm rest (d, ws, ?out, ?tu, fm + 1)"
      using fr rd rw dry by simp
    have rd_rest: "\<forall>fr\<in>set rest. \<exists>c. read_text d (fst fr) = Inr c" using Cons.prems(2) by simp
    from Cons.IH[OF dist rd_rest ok_rest, of ws ?out ?tu "fm + 1"] obtain d' where
      u: "update_files dry_run hm rest (d, ws, ?out, ?tu, fm + 1) =
        (None, d',
         ws @ (if dry_run then [] else map fst (filter (changed hm d) rest)),
         ?out @ concat (map (\<lambda>fr. file_reports hm (fst fr) (snd fr) (content_at d (fst fr))) rest),
         ?tu + sum_list (map (\<lambda>fr. length (filter (stale hm) (snd fr))) rest),
         fm + 1 + length (filter (changed hm d) rest))"
      and p: "dry_run \<or> filter (changed hm d) rest = [] \<longrightarrow> d' = d" "\<forall>r. rglob r d' = rglob r d"
        "\<forall>q. file_text d' q =
          (case map_of rest q of
             Some refs \<Rightarrow>
               if dry_run \<or> \<not> changed hm d (q, refs) then file_text d q
               else Inr (rewritten hm refs (content_at d q))
           | None \<Rightarrow> file_text d q)"
      by blast
    have rdq: "file_text d' q =
        (case map_of (fr # rest) q of
           Some refs \<Rightarrow>
             if dry_run \<or> \<not> changed hm d (q, refs) then file_text d q
             else Inr (rewritten hm refs (content_at d q))
         | None \<Rightarrow> file_text d q)" for q
      using p(3) nf fr dry(2) by (cases "q = f") simp_all
    show ?thesis
      unfolding step u using p(1,2) rdq fr ca dry chg by (intro exI[of _ d']) simp
  next
    case wr
    from write_after_read[OF ft, of ?c'] obtain d1 where w: "write_text d f ?c' = Inr d1"
      and r1: "\<And>q. file_text d1 q = (if q = f then Inr ?c' else file_text d q)" by blast
    have g1: "\<And>r. rglob r d1 = rglob r d" using write_keeps_walk[OF ft w] .
    have step: "update_files dry_run hm (fr # rest) (d, ws, out, tu, fm) =
        update_files dry_run hm rest (d1, ws @ [f], ?out, ?tu, fm + 1)"
      using fr rd rw wr w by simp
    have same_rest: "content_at d1 (fst fr') = content_at d (fst fr')" if "fr' \<in> set rest" for fr'
    proof -
      from that fnot have "fst fr' \<noteq> f" by auto
      then show ?thesis using r1 by (intro content_at_same) simp
    qed
    have rd_rest: "\<forall>fr\<in>set rest. \<exists>c. read_text d1 (fst fr) = Inr c"
    proof
      fix fr' assume m: "fr' \<in> set rest"
      with fnot have "fst fr' \<noteq> f" by auto
      then have "read_text d1 (fst fr') = read_text d (fst fr')"
        using r1 by (intro read_text_same) simp
      with Cons.prems(2) m show "\<exists>c. read_text d1 (fst fr') = Inr c" by simp
    qed
    from Cons.IH[OF dist rd_rest ok_rest, of "ws @ [f]" ?out ?tu "fm + 1"] obtain d' where
      u: "update_files dry_run hm rest (d1, ws @ [f], ?out, ?tu, fm + 1) =
        (None, d',
         (ws @ [f]) @ (if dry_run then [] else map fst (filter (changed hm d1) rest)),
         ?out @ concat (map (\<lambda>fr. file_reports hm (fst fr) (snd fr) (content_at d1 (fst fr))) rest),
         ?tu + sum_list (map (\<lambda>fr. length (filter (stale hm) (snd fr))) rest),
         fm + 1 + length (filter (changed hm d1) rest))"
      and p: "\<forall>r. rglob r d' = rglob r d1"
        "\<forall>q. file_text d' q =
          (case map_of rest q of
             Some refs \<Rightarrow>
               if dry_run \<or> \<not> changed hm d1 (q, refs) then file_text d1 q
               else Inr (rewritten hm refs (content_at d1 q))
           | None \<Rightarrow> file_text d1 q)"
      by blast
    have e1: "map (\<lambda>fr. file_reports hm (fst fr) (snd fr) (content_at d1 (fst fr))) rest =
        map (\<lambda>fr. file_reports hm (fst fr) (snd fr) (content_at d (fst fr))) rest"
      using same_rest by simp
    have e2: "filter (changed hm d1) rest = filter (changed hm d) rest"
      using same_rest by (intro filter_cong) (simp_all add: changed_def)
    have rdq: "file_text d' q =
        (case map_of (fr # rest) q of
           Some refs \<Rightarrow>
             if dry_run \<or> \<not> changed hm d (q, refs) then file_text d q
             else Inr (rewritten hm refs (content_at d q))
         | None \<Rightarrow> file_text d q)" for q
    proof (cases "q = f")
      case True
      with p(2) nf r1 have "file_text d' q = Inr ?c'" by simp
      with True fr ca wr chg show ?thesis by simp
    next
      case False
      then have ft1: "file_text d1 q = file_text d q" using r1 by simp
      then have "content_at d1 q = content_at d q" by (rule content_at_same)
      with ft1 p(2) False fr show ?thesis by (simp add: changed_def split: option.splits)
    qed
    show ?thesis
      unfolding step u e1 e2 using p(1) g1 rdq fr ca wr chg by (intro exI[of _ d']) simp
  qed
qed

lemma replace_Nil: "old \<noteq> [] \<Longrightarrow> replace old new [] = []"
  by (simp add: replace.simps)

lemma replace_hit:
  "old \<noteq> [] \<Longrightarrow> replace old new (old @ s) = new @ replace old new s"
  by (cases old) (simp_all add: replace.simps)

lemma replace_miss:
  "old \<noteq> [] \<Longrightarrow> take (length old) (c # s) \<noteq> old \<Longrightarrow>
     replace old new (c # s) = c # replace old new s"
  by (simp add: replace.simps)

lemma replace_miss_hd:
  "old \<noteq> [] \<Longrightarrow> c \<noteq> hd old \<Longrightarrow> replace old new (c # s) = c # replace old new s"
proof (rule replace_miss)
  assume a: "old \<noteq> []" "c \<noteq> hd old"
  show "old \<noteq> []" by fact
  show "take (length old) (c # s) \<noteq> old"
  proof
    assume "take (length old) (c # s) = old"
    then have "hd (take (length old) (c # s)) = hd old" by simp
    with a show False by (cases old) auto
  qed
qed

lemma replace_skip:
  "old \<noteq> [] \<Longrightarrow> hd old \<notin> set g \<Longrightarrow> replace old new (g @ s) = g @ replace old new s"
  by (induction g) (auto simp: replace_miss_hd)

lemma file_reports_length_aux:
  "\<forall>ref\<in>set refs. hm (action_path ref) \<noteq> None \<Longrightarrow>
     length (fst (snd (snd (rewrite_refs hm file refs (c, out, n))))) =
       length out + length (filter (stale hm) refs)"
proof (induction refs arbitrary: c out n)
  case Nil
  show ?case by simp
next
  case (Cons ref refs)
  then obtain latest where l: "hm (action_path ref) = Some latest" by auto
  from Cons have ih: "\<And>c out n. length (fst (snd (snd (rewrite_refs hm file refs (c, out, n))))) =
       length out + length (filter (stale hm) refs)" by simp
  show ?case
  proof (cases "current_hash ref = latest")
    case True
    then have "\<not> stale hm ref" using l by (simp add: stale_def)
    with True l ih[of c out n] show ?thesis by simp
  next
    case False
    then have "stale hm ref" using l by (auto simp: stale_def)
    with l False ih show ?thesis by (simp add: Let_def)
  qed
qed

lemma file_reports_length:
  "\<forall>ref\<in>set refs. hm (action_path ref) \<noteq> None \<Longrightarrow>
     length (file_reports hm file refs c) = length (filter (stale hm) refs)"
  using file_reports_length_aux[of refs hm "file" c "[]" 0] by (simp add: file_reports_def)

lemma resolved_covers:
  assumes "get_hash_mapping git all_references = (Inr hm, log)"
  shows "\<forall>fr\<in>set all_references. \<forall>ref\<in>set (snd fr). hm (action_path ref) \<noteq> None"
proof (intro ballI)
  fix fr ref assume m: "fr \<in> set all_references" "ref \<in> set (snd fr)"
  from get_hash_mapping_cases[of git all_references] assms
  have "resolved_so_far git (hm, log)" "set log = referenced_paths all_references" by simp_all
  then have "dom hm = referenced_paths all_references" by (simp add: resolved_so_far_def)
  moreover have "action_path ref \<in> referenced_paths all_references"
    using m by (auto simp: referenced_paths_def)
  ultimately show "hm (action_path ref) \<noteq> None" by blast
qed

lemma scanned_readable:
  assumes "collect_all_references order directory = Inr all_references"
  shows "\<forall>fr\<in>set all_references. \<exists>c. read_text directory (fst fr) = Inr c"
proof
  fix fr assume "fr \<in> set all_references"
  then have "(fst fr, snd fr) \<in> set all_references" by simp
  then show "\<exists>c. read_text directory (fst fr) = Inr c"
    unfolding collect_all_references_entries(2)[OF assms] by blast
qed

lemma main_updates:
  assumes "directory = Dir es"
    and "collect_all_references order directory = Inr all_references"
    and "get_hash_mapping git all_references = (Inr hm, log)"
    and "update_files dry_run hm all_references (directory, [], [], 0, 0) =
      (err, d, ws, out, n, k)"
  shows "main order git dry_run directory =
      \<lparr>failure = err, disk = d, written = ws, reports = out, total_updates = n,
       files_modified = k, queries = log\<rparr>"
  using assms by (simp add: main_def)

lemma main_result:
  assumes "directory = Dir es"
    and "collect_all_references order directory = Inr all_references"
    and "get_hash_mapping git all_references = (Inr hm, log)"
  shows "\<exists>d'. main order git dry_run directory =
      \<lparr>failure = None, disk = d',
       written = (if dry_run then [] else map fst (filter (changed hm directory) all_references)),
       reports = concat (map (\<lambda>fr. file_reports hm (fst fr) (snd fr) (content_at directory (fst fr)))
                   all_references),
       total_updates = sum_list (map (\<lambda>fr. length (filter (stale hm) (snd fr))) all_references),
       files_modified = length (filter (changed hm directory) all_references),
       queries = log\<rparr> \<and>
     (dry_run \<or> filter (changed hm directory) all_references = [] \<longrightarrow> d' = directory) \<and>
     (\<forall>r. rglob r d' = rglob r directory) \<and>
     (\<forall>q. file_text d' q =
        (case map_of all_references q of
           Some refs \<Rightarrow>
             if dry_run \<or> \<not> changed hm directory (q, refs) then file_text directory q
             else Inr (rewritten hm refs (content_at directory q))
         | None \<Rightarrow> file_text directory q))"
proof -
  note u = update_files_result[OF collect_all_references_entries(1)[OF assms(2)]
      scanned_readable[OF assms(2)] resolved_covers[OF assms(3)], of dry_run "[]" "[]" 0 0]
  then obtain d' where
    1: "update_files dry_run hm all_references (directory, [], [], 0, 0) =
      (None, d',
       [] @ (if dry_run then [] else map fst (filter (changed hm directory) all_references)),
       [] @ concat (map (\<lambda>fr. file_reports hm (fst fr) (snd fr) (content_at directory (fst fr)))
                   all_references),
       0 + sum_list (map (\<lambda>fr. length (filter (stale hm) (snd fr))) all_references),
       0 + length (filter (changed hm directory) all_references))"
    and 2: "dry_run \<or> filter (changed hm directory) all_references = [] \<longrightarrow> d' = directory" "\<forall>r. rglob r d' = rglob r directory"
      "\<forall>q. file_text d' q =
        (case map_of all_references q of
           Some refs \<Rightarrow>
             if dry_run \<or> \<not> changed hm directory (q, refs) then file_text directory q
             else Inr (rewritten hm refs (content_at directory q))
         | None \<Rightarrow> file_text directory q)"
    by blast
  have "main order git dry_run directory =
      \<lparr>failure = None, disk = d',
       written = (if dry_run then [] else map fst (filter (changed hm directory) all_references)),
       reports = concat (map (\<lambda>fr. file_reports hm (fst fr) (snd fr) (content_at directory (fst fr)))
                   all_references),
       total_updates = sum_list (map (\<lambda>fr. length (filter (stale hm) (snd fr))) all_references),
       files_modified = length (filter (changed hm directory) all_references),
       queries = log\<rparr>"
    unfolding main_def assms(1)[symmetric] using assms(1,2,3) 1 by simp
  with 2 show ?thesis by blast
qed

section \<open>Substitution and the text outside the references\<close>

lemma is_hash_commit_hash: "is_hash h \<Longrightarrow> commit_hash h"
  by (simp add: is_hash_def commit_hash_def)

lemma hex_char_not_X: "hex_char c \<Longrightarrow> c \<noteq> CHR ''X''"
  by (auto simp: hex_char_def)

lemma hex_no_X: "list_all hex_char t \<Longrightarrow> CHR ''X'' \<notin> set t"
  unfolding list_all_iff using hex_char_not_X by blast

lemma hex_char_not_CR: "hex_char c \<Longrightarrow> c \<noteq> CHR 0x0D"
  by (auto simp: hex_char_def)

lemma hex_no_CR: "list_all hex_char t \<Longrightarrow> CHR 0x0D \<notin> set t"
  unfolding list_all_iff using hex_char_not_CR by blast

lemma same_outside_refl: "same_outside_references s s"
proof (induction s rule: finditer.induct)
  case (1 s)
  show ?case
  proof (cases "PATTERN_match s")
    case None
    show ?thesis
    proof (cases s)
      case Nil
      then show ?thesis by (simp add: same_end)
    next
      case (Cons c s')
      with None 1(1)[OF None Cons] show ?thesis by (simp add: same_char)
    qed
  next
    case (Some w)
    obtain p h r where w: "w = (p, h, r)" by (cases w) auto
    have m: "PATTERN_match s = Some (p, h, r)" using Some w by simp
    then have d: "is_path p" "is_hash h" "s = PREFIX @ p @ ''@'' @ h @ r"
      by (simp_all add: PATTERN_match_Some)
    have "same_outside_references r r" using 1(2)[OF Some w[symmetric] refl] .
    from same_ref[OF d(1,2) is_hash_commit_hash[OF d(2)] this] d(3) show ?thesis by simp
  qed
qed

text \<open>Text without an X is copied as it is.\<close>

lemma same_outside_no_X:
  "same_outside_references a b \<Longrightarrow> b = g @ r \<Longrightarrow> CHR ''X'' \<notin> set g \<Longrightarrow>
     \<exists>r0. a = g @ r0 \<and> same_outside_references r0 r"
proof (induction arbitrary: g r rule: same_outside_references.induct)
  case same_end
  then show ?case by (auto intro: same_outside_references.same_end)
next
  case (same_ref p h t r0 r')
  from same_ref.prems have "g = []" by (cases g) (auto simp: PREFIX_def)
  with same_ref.prems have "r = PREFIX @ p @ ''@'' @ t @ r'" by simp
  with \<open>g = []\<close> same_outside_references.same_ref[OF same_ref.hyps(1,2,3,4)] show ?case by auto
next
  case (same_char c s s')
  show ?case
  proof (cases g)
    case Nil
    with same_char.prems have "r = c # s'" by simp
    with Nil same_outside_references.same_char[OF same_char.hyps(1,2)] show ?thesis by auto
  next
    case (Cons x g')
    with same_char.prems have x: "x = c" "s' = g' @ r" "CHR ''X'' \<notin> set g'" by auto
    from same_char.IH[OF x(2,3)] obtain r0 where "s = g' @ r0" "same_outside_references r0 r" by blast
    with Cons x show ?thesis by auto
  qed
qed

text \<open>Where the new text has a reference, the old text has one with the same path.\<close>

lemma same_outside_reference_back:
  "same_outside_references a b \<Longrightarrow> b = v @ CHR ''@'' # h @ r \<Longrightarrow> CHR ''@'' \<notin> set v \<Longrightarrow>
     is_hash h \<Longrightarrow> \<exists>h0 r0. a = v @ CHR ''@'' # h0 @ r0 \<and> is_hash h0"
proof (induction arbitrary: v rule: same_outside_references.induct)
  case same_end
  then show ?case by simp
next
  case (same_ref p h1 t r1 r')
  have "(PREFIX @ p) @ CHR ''@'' # (t @ r') = v @ CHR ''@'' # (h @ r)"
    using same_ref.prems(1) by simp
  moreover have "CHR ''@'' \<notin> set (PREFIX @ p)"
    using is_path_no_at[OF same_ref.hyps(1)] PREFIX_no_at by simp
  ultimately have "PREFIX @ p = v" using split_at_unique same_ref.prems(2) by metis
  with same_ref.hyps(2) show ?case by (intro exI[of _ h1] exI[of _ r1]) auto
next
  case (same_char c s s')
  show ?case
  proof (cases v)
    case Nil
    with same_char.prems have c: "c = CHR ''@''" and s': "s' = h @ r" by auto
    have "CHR ''X'' \<notin> set h" using same_char.prems(3) hex_no_X by (simp add: is_hash_def)
    from same_outside_no_X[OF same_char.hyps(2) s' this] obtain r0 where "s = h @ r0" by blast
    with Nil c same_char.prems(3) show ?thesis by auto
  next
    case (Cons x v')
    with same_char.prems have x: "x = c" "s' = v' @ CHR ''@'' # h @ r" "CHR ''@'' \<notin> set v'" by auto
    from same_char.IH[OF x(2,3) same_char.prems(3)] obtain h0 r0
      where "s = v' @ CHR ''@'' # h0 @ r0" "is_hash h0" by blast
    with Cons x show ?thesis by auto
  qed
qed

lemma same_outside_no_new_match:
  assumes "same_outside_references a b" "PATTERN_match a = None"
  shows "PATTERN_match b = None"
proof (rule ccontr)
  assume "PATTERN_match b \<noteq> None"
  then obtain p h r where "PATTERN_match b = Some (p, h, r)" by (cases "PATTERN_match b") auto
  then have b: "is_path p" "is_hash h" "b = (PREFIX @ p) @ CHR ''@'' # h @ r"
    by (simp_all add: PATTERN_match_Some)
  have "CHR ''@'' \<notin> set (PREFIX @ p)" using is_path_no_at[OF b(1)] PREFIX_no_at by simp
  from same_outside_reference_back[OF assms(1) b(3) this b(2)] obtain h0 r0
    where "a = (PREFIX @ p) @ CHR ''@'' # h0 @ r0" "is_hash h0" by blast
  with b(1) have "PATTERN_match a = Some (p, h0, r0)" by (simp add: PATTERN_match_Some)
  with assms(2) show False by simp
qed

lemma ref_text_nonempty: "ref_text q h \<noteq> []"
  by (simp add: ref_text_def PREFIX_def)

lemma hd_ref_text: "hd (ref_text q h) = CHR ''X''"
  by (simp add: ref_text_def PREFIX_def)

lemma ref_text_split: "ref_text q h @ r = (PREFIX @ q) @ CHR ''@'' # (h @ r)"
  by (simp add: ref_text_def)

lemma PATTERN_match_ref_text:
  "is_path q \<Longrightarrow> is_hash h \<Longrightarrow> PATTERN_match (ref_text q h @ r) = Some (q, h, r)"
  by (simp add: PATTERN_match_Some ref_text_def)

lemma replace_skip_hex:
  "list_all hex_char g \<Longrightarrow> replace (ref_text q h) new (g @ s) = g @ replace (ref_text q h) new s"
  by (rule replace_skip[OF ref_text_nonempty]) (simp add: hd_ref_text hex_no_X)

text \<open>
  One substitution inside the text of a reference: the text up to the at sign stays, and
  what follows it is again a commit hash.
\<close>

lemma replace_in_reference:
  assumes "is_path q" "is_hash h" "commit_hash h2"
    and "CHR ''@'' \<notin> set v" "commit_hash t"
  shows "\<exists>t'. commit_hash t' \<and>
     replace (ref_text q h) (ref_text q h2) (v @ CHR ''@'' # t @ r) =
       v @ CHR ''@'' # t' @ replace (ref_text q h) (ref_text q h2) r"
  using assms(4)
proof (induction v)
  case Nil
  let ?old = "ref_text q h" and ?new = "ref_text q h2"
  have "replace ?old ?new (t @ r) = t @ replace ?old ?new r"
    using assms(5) by (intro replace_skip_hex) (simp add: commit_hash_def)
  moreover have "replace ?old ?new (CHR ''@'' # t @ r) = CHR ''@'' # replace ?old ?new (t @ r)"
    by (rule replace_miss_hd[OF ref_text_nonempty]) (simp add: hd_ref_text)
  ultimately show ?case using assms(5) by auto
next
  case (Cons c v)
  let ?old = "ref_text q h" and ?new = "ref_text q h2"
  let ?s = "(c # v) @ CHR ''@'' # t @ r"
  show ?case
  proof (cases "take (length ?old) ?s = ?old")
    case True
    then obtain rest where rest: "?s = ?old @ rest"
      by (metis append_take_drop_id)
    then have "(c # v) @ CHR ''@'' # (t @ r) = (PREFIX @ q) @ CHR ''@'' # (h @ rest)"
      unfolding ref_text_split by simp
    moreover have "CHR ''@'' \<notin> set (PREFIX @ q)"
      using is_path_no_at[OF assms(1)] PREFIX_no_at by simp
    ultimately have e: "c # v = PREFIX @ q" "t @ r = h @ rest"
      using split_at_unique[of "c # v" "CHR ''@''" "t @ r" "PREFIX @ q" "h @ rest"] Cons.prems
      by blast+
    have lh: "length h = 40" using assms(2) by (simp add: is_hash_def)
    have lt: "40 \<le> length t" using assms(5) by (simp add: commit_hash_def)
    have "take 40 (t @ r) = take 40 (h @ rest)" using e(2) by simp
    then have ht: "h = take 40 t" using lh lt by simp
    have "drop 40 (t @ r) = drop 40 (h @ rest)" using e(2) by simp
    then have rest': "rest = drop 40 t @ r" using lh lt by simp
    have hexd: "list_all hex_char (drop 40 t)"
      using assms(5) by (auto simp: commit_hash_def list_all_iff dest: in_set_dropD)
    have "replace ?old ?new ?s = ?new @ replace ?old ?new rest"
      unfolding rest by (rule replace_hit[OF ref_text_nonempty])
    also have "replace ?old ?new rest = drop 40 t @ replace ?old ?new r"
      unfolding rest' by (rule replace_skip_hex[OF hexd])
    finally have "replace ?old ?new ?s = (c # v) @ CHR ''@'' # (h2 @ drop 40 t) @ replace ?old ?new r"
      using e(1) by (simp add: ref_text_def)
    moreover have "commit_hash (h2 @ drop 40 t)"
      using assms(3) hexd by (auto simp: commit_hash_def)
    ultimately show ?thesis by blast
  next
    case False
    from Cons.prems have "CHR ''@'' \<notin> set v" by simp
    from Cons.IH[OF this] obtain t' where t': "commit_hash t'"
      "replace ?old ?new (v @ CHR ''@'' # t @ r) = v @ CHR ''@'' # t' @ replace ?old ?new r"
      by blast
    have "replace ?old ?new (c # (v @ CHR ''@'' # t @ r)) = c # replace ?old ?new (v @ CHR ''@'' # t @ r)"
      by (rule replace_miss[OF ref_text_nonempty]) (use False in simp)
    with t' show ?thesis by auto
  qed
qed

text \<open>One substitution changes nothing outside the references.\<close>

lemma replace_same_outside:
  assumes "is_path q" "is_hash h" "commit_hash h2"
  shows "same_outside_references a b \<Longrightarrow>
     same_outside_references a (replace (ref_text q h) (ref_text q h2) b)"
proof (induction rule: same_outside_references.induct)
  case same_end
  show ?case
    unfolding replace_Nil[OF ref_text_nonempty] by (rule same_outside_references.same_end)
next
  case (same_ref p h1 t r r')
  let ?old = "ref_text q h" and ?new = "ref_text q h2"
  have "CHR ''@'' \<notin> set (PREFIX @ p)" using is_path_no_at[OF same_ref.hyps(1)] PREFIX_no_at by simp
  from replace_in_reference[OF assms this same_ref.hyps(3), of r'] obtain t' where
    t': "commit_hash t'"
    "replace ?old ?new ((PREFIX @ p) @ CHR ''@'' # t @ r') = (PREFIX @ p) @ CHR ''@'' # t' @ replace ?old ?new r'"
    by blast
  from same_outside_references.same_ref[OF same_ref.hyps(1,2) t'(1) same_ref.IH] t'(2)
  show ?case by simp
next
  case (same_char c s s')
  let ?old = "ref_text q h" and ?new = "ref_text q h2"
  have rel: "same_outside_references (c # s) (c # s')"
    using same_char.hyps by (rule same_outside_references.same_char)
  have "take (length ?old) (c # s') \<noteq> ?old"
  proof
    assume "take (length ?old) (c # s') = ?old"
    then obtain rest where "c # s' = ?old @ rest" by (metis append_take_drop_id)
    then have "PATTERN_match (c # s') = Some (q, h, rest)"
      using PATTERN_match_ref_text[OF assms(1,2)] by simp
    with same_outside_no_new_match[OF rel same_char.hyps(1)] show False by simp
  qed
  then have "replace ?old ?new (c # s') = c # replace ?old ?new s'"
    by (rule replace_miss[OF ref_text_nonempty])
  with same_outside_references.same_char[OF same_char.hyps(1) same_char.IH] show ?case by simp
qed

lemma rewritten_Nil: "rewritten hm [] c = c"
  by (simp add: rewritten_def)

lemma rewritten_Cons:
  "rewritten hm (ref # refs) c =
     (case hm (action_path ref) of
        None \<Rightarrow> c
      | Some latest \<Rightarrow>
          if current_hash ref = latest then rewritten hm refs c
          else rewritten hm refs (replace (full_match ref) (ref_text (action_path ref) latest) c))"
proof (cases "hm (action_path ref)")
  case None
  then show ?thesis by (simp add: rewritten_def)
next
  case (Some latest)
  show ?thesis
  proof (cases "current_hash ref = latest")
    case True
    with Some show ?thesis by (simp add: rewritten_def)
  next
    case False
    let ?c = "replace (full_match ref) (ref_text (action_path ref) latest) c"
    have "rewritten hm (ref # refs) c =
        fst (snd (rewrite_refs hm [] refs (?c, [([], full_match ref, ref_text (action_path ref) latest)], 1)))"
      using Some False by (simp add: rewritten_def Let_def ref_text_def)
    also have "\<dots> = rewritten hm refs ?c" by (rule rewrite_refs_content)
    finally show ?thesis using Some False by simp
  qed
qed

lemma references_in_scanned:
  "is_set_order order \<Longrightarrow> ref \<in> set (references_in order content) \<Longrightarrow> scanned_reference ref"
  using reference_fields[of ref content] references_in_set[of order content]
  by (simp add: scanned_reference_def ref_text_def)

lemma rewritten_same_outside:
  assumes "\<forall>ref\<in>set refs. scanned_reference ref" "\<forall>p l. hm p = Some l \<longrightarrow> commit_hash l"
  shows "same_outside_references a b \<Longrightarrow> same_outside_references a (rewritten hm refs b)"
  using assms(1)
proof (induction refs arbitrary: b)
  case Nil
  then show ?case by (simp add: rewritten_Nil)
next
  case (Cons ref refs)
  from Cons.prems have sc: "scanned_reference ref" and rest: "\<forall>ref\<in>set refs. scanned_reference ref"
    by simp_all
  show ?case
  proof (cases "hm (action_path ref)")
    case None
    with Cons.prems show ?thesis by (simp add: rewritten_Cons)
  next
    case (Some latest)
    show ?thesis
    proof (cases "current_hash ref = latest")
      case True
      with Some Cons.IH[OF Cons.prems(1) rest] show ?thesis by (simp add: rewritten_Cons)
    next
      case False
      have "commit_hash latest" using assms(2) Some by blast
      with sc Cons.prems(1) have "same_outside_references a
          (replace (full_match ref) (ref_text (action_path ref) latest) b)"
        using replace_same_outside[of "action_path ref" "current_hash ref" latest a b]
        by (simp add: scanned_reference_def)
      from Cons.IH[OF this rest] Some False show ?thesis by (simp add: rewritten_Cons)
    qed
  qed
qed

lemma resolved_values:
  assumes "get_hash_mapping git all_references = (Inr hm, log)" "hm p = Some l"
  shows "p \<in> referenced_paths all_references \<and> l = strip (stdout (git p))"
proof -
  from get_hash_mapping_cases[of git all_references] assms(1)
  have r: "resolved_so_far git (hm, log)" and s: "set log = referenced_paths all_references"
    by simp_all
  from r assms(2) have g: "get_latest_commit_for_path git p = Inr l" by (simp add: resolved_so_far_def)
  then have "\<not> query_fails git p" by (simp add: query_fails_iff)
  with g have "l = strip (stdout (git p))" by (simp add: query_ok_iff)
  moreover from r s assms(2) have "p \<in> referenced_paths all_references"
    by (auto simp: resolved_so_far_def)
  ultimately show ?thesis by simp
qed

lemma finditer_ref_text:
  "is_path p \<Longrightarrow> is_hash h \<Longrightarrow> finditer (ref_text p h @ r) = (ref_text p h, p, h) # finditer r"
  using finditer_ref[of p h r] by (simp add: ref_text_def)

text \<open>
  The relation keeps every carriage return, since a hash holds none; and the scan and the
  substitution of a text with one reference and no other \<^verbatim>\<open>X\<close>.
\<close>

lemma same_outside_CR:
  "same_outside_references a b \<Longrightarrow> CHR 0x0D \<in> set a \<longleftrightarrow> CHR 0x0D \<in> set b"
proof (induction rule: same_outside_references.induct)
  case same_end
  show ?case by simp
next
  case (same_ref p h t r r')
  then have "CHR 0x0D \<notin> set h" "CHR 0x0D \<notin> set t"
    using hex_no_CR by (simp_all add: is_hash_def commit_hash_def)
  with same_ref.IH show ?case by simp
next
  case (same_char c s s')
  then show ?case by simp
qed

lemma no_CR_ref_text: "CHR 0x0D \<notin> set q \<Longrightarrow> list_all hex_char h \<Longrightarrow> CHR 0x0D \<notin> set (ref_text q h)"
  using hex_no_CR[of h] by (simp add: ref_text_def PREFIX_def)

lemma finditer_line:
  assumes "is_path p" "is_hash h" "CHR ''X'' \<notin> set g" "CHR ''X'' \<notin> set e"
  shows "finditer (g @ ref_text p h @ e) = [(ref_text p h, p, h)]"
proof -
  have "finditer (g @ ref_text p h @ e) = finditer (ref_text p h @ e)"
    by (rule finditer_skip[OF assms(3)])
  also have "\<dots> = (ref_text p h, p, h) # finditer e"
    by (rule finditer_ref_text[OF assms(1,2)])
  finally show ?thesis by (simp add: finditer_no_X[OF assms(4)])
qed

lemma replace_line:
  assumes "CHR ''X'' \<notin> set g" "CHR ''X'' \<notin> set e"
  shows "replace (ref_text p h) new (g @ ref_text p h @ e) = g @ new @ e"
proof -
  have "replace (ref_text p h) new (g @ ref_text p h @ e) =
      g @ replace (ref_text p h) new (ref_text p h @ e)"
    by (rule replace_skip[OF ref_text_nonempty]) (simp add: hd_ref_text assms(1))
  also have "replace (ref_text p h) new (ref_text p h @ e) = new @ replace (ref_text p h) new e"
    by (rule replace_hit[OF ref_text_nonempty])
  also have "replace (ref_text p h) new e = e"
    using replace_skip[OF ref_text_nonempty, of p h e new "[]"] assms(2)
    by (simp add: hd_ref_text replace_Nil[OF ref_text_nonempty])
  finally show ?thesis .
qed

section \<open>Example inputs\<close>

definition HA :: string where "HA = ''aaaaaaaaaaaaaaaaaaaaaaaaaaaaaaaaaaaaaaaa''"
definition HB :: string where "HB = ''bbbbbbbbbbbbbbbbbbbbbbbbbbbbbbbbbbbbbbbb''"
definition HC :: string where "HC = ''cccccccccccccccccccccccccccccccccccccccc''"

lemma is_hash_HA: "is_hash HA" by (simp add: is_hash_def HA_def hex_char_def)
lemma is_hash_HB: "is_hash HB" by (simp add: is_hash_def HB_def hex_char_def)
lemma is_hash_HC: "is_hash HC" by (simp add: is_hash_def HC_def hex_char_def)

lemma is_set_order_remdups: "is_set_order remdups"
  by (simp add: is_set_order_def)

lemma is_path_get_nproc: "is_path ''get-nproc''"
  by (simp add: is_path_def dir_path_def dir_char_def)

lemma finditer_example1:
  "finditer (''uses: '' @ PREFIX @ ''get-nproc'' @ ''@'' @ HA) =
     [(PREFIX @ ''get-nproc'' @ ''@'' @ HA, ''get-nproc'', HA)]"
proof -
  have "finditer (''uses: '' @ PREFIX @ ''get-nproc'' @ ''@'' @ HA)
      = finditer (PREFIX @ ''get-nproc'' @ ''@'' @ HA @ [])"
    by (subst finditer_skip) simp_all
  also have "\<dots> = (PREFIX @ ''get-nproc'' @ ''@'' @ HA, ''get-nproc'', HA) # finditer []"
    by (rule finditer_ref[OF is_path_get_nproc is_hash_HA])
  finally show ?thesis by (simp add: finditer_Nil)
qed

lemma rewrite_example1:
  "rewrite_refs [''get-nproc'' \<mapsto> HB] [''ci.yml'']
      (references_in remdups (''uses: '' @ PREFIX @ ''get-nproc'' @ ''@'' @ HA))
      (''uses: '' @ PREFIX @ ''get-nproc'' @ ''@'' @ HA, [], 0) =
   (None,
    replace (PREFIX @ ''get-nproc'' @ ''@'' @ HA) (PREFIX @ ''get-nproc'' @ ''@'' @ HB)
      (''uses: '' @ PREFIX @ ''get-nproc'' @ ''@'' @ HA),
    [([''ci.yml''], PREFIX @ ''get-nproc'' @ ''@'' @ HA, PREFIX @ ''get-nproc'' @ ''@'' @ HB)], 1)"
proof -
  have "HA \<noteq> HB" by (simp add: HA_def HB_def)
  then show ?thesis
    unfolding references_in_def finditer_example1 by (simp add: mk_reference_def Let_def)
qed

definition example_content :: string where
  "example_content = ''uses: '' @ PREFIX @ ''get-nproc'' @ ''@'' @ HA"

definition example_ref :: ActionReference where
  "example_ref = \<lparr>full_match = PREFIX @ ''get-nproc'' @ ''@'' @ HA, action_path = ''get-nproc'',
     current_hash = HA\<rparr>"

definition example_dir :: node where
  "example_dir = Dir [(''ci.yml'', File example_content), (''notes.yaml'', File example_content),
     (''sub'', Dir [(''build.yml'', File ''no reference'')])]"

definition git_ok :: git where
  "git_ok p = \<lparr>returncode = 0, stdout = HB\<rparr>"

definition git_failing :: git where
  "git_failing p = \<lparr>returncode = 128, stdout = []\<rparr>"

lemma references_in_example: "references_in remdups example_content = [example_ref]"
  unfolding references_in_def example_content_def finditer_example1
  by (simp add: mk_reference_def example_ref_def)

lemma rglob_example: "rglob [] example_dir = [[''ci.yml''], [''sub'', ''build.yml'']]"
  by (simp add: example_dir_def fnmatch_yml_def suffix_to_prefix)

lemma read_example: "read_text example_dir [''ci.yml''] = Inr example_content"
  by (rule read_text_File) (simp_all add: example_dir_def example_content_def PREFIX_def HA_def)

lemma read_example_sub: "read_text example_dir [''sub'', ''build.yml''] = Inr ''no reference''"
  by (rule read_text_File) (simp_all add: example_dir_def)

lemma collect_example: "collect_all_references remdups example_dir = Inr [([''ci.yml''], [example_ref])]"
proof -
  have 1: "find_action_references remdups example_dir [''ci.yml''] = Inr [example_ref]"
    by (simp add: find_action_references_def read_example references_in_example)
  have "finditer ''no reference'' = []" by (rule finditer_no_X) simp
  then have 2: "find_action_references remdups example_dir [''sub'', ''build.yml''] = Inr []"
    by (simp add: find_action_references_def read_example_sub references_in_def)
  show ?thesis
    unfolding collect_all_references_def rglob_example by (simp add: 1 2)
qed

lemma strip_id: "s \<noteq> [] \<Longrightarrow> \<not> isspace (hd s) \<Longrightarrow> \<not> isspace (last s) \<Longrightarrow> strip s = s"
proof -
  assume a: "s \<noteq> []" "\<not> isspace (hd s)" "\<not> isspace (last s)"
  then have "dropWhile isspace s = s" by (cases s) auto
  moreover have "dropWhile isspace (rev s) = rev s"
    using a by (cases "rev s") (auto simp: hd_rev)
  ultimately show ?thesis by (simp add: strip_def)
qed

lemma strip_HB: "strip HB = HB"
  by (rule strip_id) (simp_all add: HB_def isspace_def)

lemma git_ok_succeeds: "\<not> query_fails git_ok p"
  by (simp add: query_fails_def git_ok_def strip_HB) (simp add: HB_def)

lemma git_failing_fails: "query_fails git_failing p"
  by (simp add: query_fails_def git_failing_def)

lemma referenced_paths_example: "referenced_paths [([''ci.yml''], [example_ref])] = {''get-nproc''}"
  by (simp add: referenced_paths_def example_ref_def)



lemma get_hash_mapping_example:
  "get_hash_mapping git_ok [([''ci.yml''], [example_ref])] =
     (Inr [''get-nproc'' \<mapsto> HB], [''get-nproc''])"
proof -
  have "get_latest_commit_for_path git_ok ''get-nproc'' = Inr HB"
    using git_ok_succeeds[of "''get-nproc''"] by (simp add: query_ok_iff git_ok_def strip_HB)
  then show ?thesis by (simp add: get_hash_mapping_def example_ref_def)
qed

lemma HA_neq_HB: "HA \<noteq> HB"
  by (simp add: HA_def HB_def)

lemma stale_example: "stale [''get-nproc'' \<mapsto> HB] example_ref"
  using HA_neq_HB by (simp add: stale_def example_ref_def)

lemma content_at_example: "content_at example_dir [''ci.yml''] = example_content"
  by (simp add: content_at_def read_example)

lemma rewritten_example:
  "rewritten [''get-nproc'' \<mapsto> HB] [example_ref] example_content =
     ''uses: '' @ PREFIX @ ''get-nproc'' @ ''@'' @ HB"
proof -
  let ?old = "PREFIX @ ''get-nproc'' @ ''@'' @ HA" and ?new = "PREFIX @ ''get-nproc'' @ ''@'' @ HB"
  have ne: "?old \<noteq> []" by (simp add: PREFIX_def)
  have "hd ?old = CHR ''X''" by (simp add: PREFIX_def)
  then have "replace ?old ?new (''uses: '' @ ?old @ []) = ''uses: '' @ replace ?old ?new (?old @ [])"
    by (intro replace_skip[OF ne]) simp
  also have "\<dots> = ''uses: '' @ ?new @ replace ?old ?new []"
    using replace_hit[OF ne, of ?new "[]"] by simp
  also have "\<dots> = ''uses: '' @ ?new" using replace_Nil[OF ne, of ?new] by simp
  finally have "replace ?old ?new example_content = ''uses: '' @ ?new"
    by (simp add: example_content_def)
  then show ?thesis
    using HA_neq_HB by (simp add: rewritten_def example_ref_def Let_def)
qed

lemma changed_example: "changed [''get-nproc'' \<mapsto> HB] example_dir ([''ci.yml''], [example_ref])"
  using HA_neq_HB
  by (simp add: changed_def content_at_example rewritten_example) (simp add: example_content_def)

lemma main_example:
  "main remdups git_ok False example_dir =
      \<lparr>failure = None,
       disk = Dir [(''ci.yml'', File (''uses: '' @ PREFIX @ ''get-nproc'' @ ''@'' @ HB)),
         (''notes.yaml'', File example_content),
         (''sub'', Dir [(''build.yml'', File ''no reference'')])],
       written = [[''ci.yml'']],
       reports = [([''ci.yml''], PREFIX @ ''get-nproc'' @ ''@'' @ HA, PREFIX @ ''get-nproc'' @ ''@'' @ HB)],
       total_updates = 1, files_modified = 1, queries = [''get-nproc'']\<rparr>"
proof -
  let ?new = "''uses: '' @ PREFIX @ ''get-nproc'' @ ''@'' @ HB"
  have rw: "rewrite_refs [''get-nproc'' \<mapsto> HB] [''ci.yml''] [example_ref] (example_content, [], 0) =
      (None, ?new,
       [([''ci.yml''], PREFIX @ ''get-nproc'' @ ''@'' @ HA, PREFIX @ ''get-nproc'' @ ''@'' @ HB)], 1)"
    using rewrite_example1 rewritten_example HA_neq_HB
    by (simp add: rewritten_def example_ref_def example_content_def Let_def)
  have ne: "?new \<noteq> example_content"
    using HA_neq_HB by (simp add: example_content_def)
  have w: "write_text example_dir [''ci.yml''] ?new =
      Inr (Dir [(''ci.yml'', File ?new), (''notes.yaml'', File example_content),
         (''sub'', Dir [(''build.yml'', File ''no reference'')])])"
    by (simp add: example_dir_def)
  have u: "update_files False [''get-nproc'' \<mapsto> HB] [([''ci.yml''], [example_ref])]
       (example_dir, [], [], 0, 0) =
      (None, Dir [(''ci.yml'', File ?new), (''notes.yaml'', File example_content),
         (''sub'', Dir [(''build.yml'', File ''no reference'')])], [[''ci.yml'']],
       [([''ci.yml''], PREFIX @ ''get-nproc'' @ ''@'' @ HA, PREFIX @ ''get-nproc'' @ ''@'' @ HB)], 1, 1)"
    using ne w by (simp add: read_example rw del: rewrite_refs.simps write_text.simps)
  show ?thesis
    by (rule main_updates[OF example_dir_def collect_example get_hash_mapping_example u])
qed

lemma commit_hash_HB: "commit_hash HB"
  by (rule is_hash_commit_hash[OF is_hash_HB])

subsection \<open>A reference whose path ends in another reference\<close>

text \<open>
  The path \<^verbatim>\<open>.github/workflows/XRPLF/actions/foo\<close> is accepted by the first alternative of
  the pattern, so that the text of the reference to \<^verbatim>\<open>foo\<close> at the same hash occurs at the
  end of the text of the reference to that path.
\<close>

definition nested_path :: string where
  "nested_path = ''.github/workflows/'' @ PREFIX @ ''foo''"

definition nested_text :: "string \<Rightarrow> string \<Rightarrow> string" where
  "nested_text h1 h2 = ref_text nested_path h1 @ [CHR 0x0A] @ ref_text ''foo'' h2"

definition nested_content :: string where
  "nested_content = nested_text HA HA"

definition nested_dir :: node where
  "nested_dir = Dir [(''ci.yml'', File nested_content)]"

definition git_nested :: git where
  "git_nested p = \<lparr>returncode = 0, stdout = (if p = ''foo'' then HC else HA)\<rparr>"

lemma nested_path_eq: "nested_path = ''.github/workflows/XRPLF/actions/foo''"
  by (simp add: nested_path_def PREFIX_def)

lemma is_path_nested: "is_path nested_path"
proof -
  have "list_all not_at_space (PREFIX @ ''foo'')"
    by (simp add: PREFIX_def not_at_space_def isspace_def)
  then have "workflow_path nested_path"
    unfolding workflow_path_def nested_path_def by (intro exI[of _ "PREFIX @ ''foo''"]) (simp add: PREFIX_def)
  then show ?thesis by (simp add: is_path_def)
qed

lemma is_path_foo: "is_path ''foo''"
  by (simp add: is_path_def dir_path_def dir_char_def)

lemma finditer_two:
  assumes "is_hash h1" "is_hash h2"
  shows "finditer (nested_text h1 h2) =
     [(ref_text nested_path h1, nested_path, h1), (ref_text ''foo'' h2, ''foo'', h2)]"
proof -
  have "finditer (ref_text nested_path h1 @ [CHR 0x0A] @ ref_text ''foo'' h2) =
      (ref_text nested_path h1, nested_path, h1) # finditer ([CHR 0x0A] @ ref_text ''foo'' h2 @ [])"
    using finditer_ref_text[OF is_path_nested assms(1)] by simp
  also have "finditer ([CHR 0x0A] @ ref_text ''foo'' h2 @ []) = finditer (ref_text ''foo'' h2 @ [])"
    by (rule finditer_skip) simp
  also have "\<dots> = (ref_text ''foo'' h2, ''foo'', h2) # finditer []"
    by (rule finditer_ref_text[OF is_path_foo assms(2)])
  finally show ?thesis by (simp add: finditer_Nil nested_text_def)
qed

lemma nested_ne_foo: "nested_path \<noteq> ''foo''"
  by (simp add: nested_path_eq)

lemma references_in_nested:
  assumes "is_hash h1" "is_hash h2"
  shows "references_in remdups (nested_text h1 h2) =
    [\<lparr>full_match = ref_text nested_path h1, action_path = nested_path, current_hash = h1\<rparr>,
     \<lparr>full_match = ref_text ''foo'' h2, action_path = ''foo'', current_hash = h2\<rparr>]"
  unfolding references_in_def finditer_two[OF assms]
  using nested_ne_foo by (simp add: mk_reference_def)

text \<open>Replacing the inner reference also rewrites the end of the outer one.\<close>

lemma replace_foo_in_nested:
  assumes "is_hash h" "is_hash h'"
  shows "replace (ref_text ''foo'' h) (ref_text ''foo'' h') (nested_text h h) = nested_text h' h'"
proof -
  let ?old = "ref_text ''foo'' h" and ?new = "ref_text ''foo'' h'"
  let ?g = "PREFIX @ ''.github/workflows/''"
  have split: "ref_text nested_path x = ?g @ ref_text ''foo'' x" for x
    by (simp add: ref_text_def nested_path_def)
  have 1: "replace ?old ?new (?g @ s) = ?g @ replace ?old ?new s" for s
  proof -
    have "take (length ?old) (CHR ''X'' # ''RPLF/actions/.github/workflows/'' @ s) \<noteq> ?old"
      by (simp add: ref_text_def PREFIX_def)
    then have "replace ?old ?new (CHR ''X'' # ''RPLF/actions/.github/workflows/'' @ s) =
        CHR ''X'' # replace ?old ?new (''RPLF/actions/.github/workflows/'' @ s)"
      by (rule replace_miss[OF ref_text_nonempty])
    also have "replace ?old ?new (''RPLF/actions/.github/workflows/'' @ s) =
        ''RPLF/actions/.github/workflows/'' @ replace ?old ?new s"
      by (rule replace_skip[OF ref_text_nonempty]) (simp add: hd_ref_text)
    finally show ?thesis by (simp add: PREFIX_def)
  qed
  have 2: "replace ?old ?new (?old @ s) = ?new @ replace ?old ?new s" for s
    by (rule replace_hit[OF ref_text_nonempty])
  have 3: "replace ?old ?new ([CHR 0x0A] @ s) = [CHR 0x0A] @ replace ?old ?new s" for s
    by (rule replace_skip[OF ref_text_nonempty]) (simp add: hd_ref_text)
  have "replace ?old ?new (?g @ ?old @ [CHR 0x0A] @ ?old @ []) = ?g @ ?new @ [CHR 0x0A] @ ?new"
    unfolding 1 2 3 by (simp add: replace_Nil[OF ref_text_nonempty])
  then show ?thesis unfolding split nested_text_def by simp
qed

lemma is_hash_strip: "is_hash h \<Longrightarrow> strip h = h"
proof (rule strip_id)
  assume h: "is_hash h"
  then show "h \<noteq> []" by (auto simp: is_hash_def)
  then have "hd h \<in> set h" "last h \<in> set h" by simp_all
  with h show "\<not> isspace (hd h)" "\<not> isspace (last h)"
    using hex_char_not_space by (auto simp: is_hash_def list_all_iff)
qed

definition nested_mapping :: "string \<rightharpoonup> string" where
  "nested_mapping = [nested_path \<mapsto> HA, ''foo'' \<mapsto> HC]"

lemma nested_mapping_simps:
  "nested_mapping nested_path = Some HA" "nested_mapping ''foo'' = Some HC"
  using nested_ne_foo by (simp_all add: nested_mapping_def)

lemma get_hash_mapping_nested:
  assumes "action_path r1 = nested_path" "action_path r2 = ''foo''"
  shows "get_hash_mapping git_nested [([''ci.yml''], [r1, r2])] =
     (Inr nested_mapping, [nested_path, ''foo''])"
proof -
  have 1: "get_latest_commit_for_path git_nested nested_path = Inr HA"
    using nested_ne_foo is_hash_HA
    by (simp add: get_latest_commit_for_path_def git_nested_def is_hash_strip) (simp add: HA_def)
  have 2: "get_latest_commit_for_path git_nested ''foo'' = Inr HC"
    using is_hash_HC
    by (simp add: get_latest_commit_for_path_def git_nested_def is_hash_strip) (simp add: HC_def)
  show ?thesis
    using nested_ne_foo assms
    by (simp add: get_hash_mapping_def 1 2 nested_mapping_def)
qed

lemma rglob_nested: "rglob [] (Dir [(''ci.yml'', File c)]) = [[''ci.yml'']]"
  by (simp add: fnmatch_yml_def suffix_to_prefix)

lemma read_nested:
  assumes "is_hash h1" "is_hash h2"
  shows "read_text (Dir [(''ci.yml'', File (nested_text h1 h2))]) [''ci.yml''] =
    Inr (nested_text h1 h2)"
proof (rule read_text_File)
  show "file_text (Dir [(''ci.yml'', File (nested_text h1 h2))]) [''ci.yml''] =
      Inr (nested_text h1 h2)" by simp
  show "CHR 0x0D \<notin> set (nested_text h1 h2)"
    using assms hex_no_CR[of h1] hex_no_CR[of h2]
    by (simp add: nested_text_def ref_text_def PREFIX_def nested_path_eq is_hash_def)
qed

lemma collect_nested:
  assumes "is_hash h1" "is_hash h2"
  shows "collect_all_references remdups
      (Dir [(''ci.yml'', File (nested_text h1 h2))]) =
    Inr [([''ci.yml''],
      [\<lparr>full_match = ref_text nested_path h1, action_path = nested_path, current_hash = h1\<rparr>,
       \<lparr>full_match = ref_text ''foo'' h2, action_path = ''foo'', current_hash = h2\<rparr>])]"
  unfolding collect_all_references_def rglob_nested
  by (simp add: find_action_references_def read_nested[OF assms] references_in_nested[OF assms])

lemma HA_neq_HC: "HA \<noteq> HC"
  by (simp add: HA_def HC_def)

lemma main_nested_first:
  "main remdups git_nested False nested_dir =
     \<lparr>failure = None,
      disk = Dir [(''ci.yml'', File (nested_text HC HC))],
      written = [[''ci.yml'']],
      reports = [([''ci.yml''], ref_text ''foo'' HA, ref_text ''foo'' HC)],
      total_updates = 1, files_modified = 1, queries = [nested_path, ''foo'']\<rparr>"
proof -
  let ?r1 = "\<lparr>full_match = ref_text nested_path HA, action_path = nested_path, current_hash = HA\<rparr>"
  let ?r2 = "\<lparr>full_match = ref_text ''foo'' HA, action_path = ''foo'', current_hash = HA\<rparr>"
  let ?c = "nested_text HA HA"
  let ?c' = "nested_text HC HC"
  have c: "collect_all_references remdups nested_dir = Inr [([''ci.yml''], [?r1, ?r2])]"
    unfolding nested_dir_def nested_content_def by (rule collect_nested[OF is_hash_HA is_hash_HA])
  have g: "get_hash_mapping git_nested [([''ci.yml''], [?r1, ?r2])] =
      (Inr nested_mapping, [nested_path, ''foo''])"
    by (rule get_hash_mapping_nested) simp_all
  have rw: "rewrite_refs nested_mapping [''ci.yml''] [?r1, ?r2] (?c, [], 0) =
      (None, ?c', [([''ci.yml''], ref_text ''foo'' HA, ref_text ''foo'' HC)], 1)"
    using HA_neq_HC replace_foo_in_nested[OF is_hash_HA is_hash_HC]
    by (simp add: nested_mapping_simps Let_def ref_text_def)
  have ne: "?c' \<noteq> ?c" by (simp add: nested_text_def ref_text_def HA_def HC_def)
  have u: "update_files False nested_mapping [([''ci.yml''], [?r1, ?r2])] (nested_dir, [], [], 0, 0) =
      (None, Dir [(''ci.yml'', File ?c')], [[''ci.yml'']],
       [([''ci.yml''], ref_text ''foo'' HA, ref_text ''foo'' HC)], 1, 1)"
    using ne read_nested[OF is_hash_HA is_hash_HA]
    by (simp add: nested_dir_def nested_content_def rw del: rewrite_refs.simps)
  show ?thesis
    unfolding main_def using c g u by (simp add: nested_dir_def)
qed

lemma replace_outer_in_nested:
  assumes "is_hash h" "is_hash h2"
  shows "replace (ref_text nested_path h) (ref_text nested_path h') (nested_text h h2) =
     nested_text h' h2"
proof -
  let ?old = "ref_text nested_path h" and ?new = "ref_text nested_path h'"
  let ?t = "''RPLF/actions/foo@'' @ h2"
  have lh: "length h = 40" using assms(1) by (simp add: is_hash_def)
  have foo: "ref_text ''foo'' h2 = CHR ''X'' # ?t" by (simp add: ref_text_def PREFIX_def)
  have "take (length ?old) (CHR ''X'' # ?t @ []) \<noteq> ?old"
    by (simp add: ref_text_def PREFIX_def nested_path_eq lh)
  then have "replace ?old ?new (CHR ''X'' # ?t @ []) = CHR ''X'' # replace ?old ?new (?t @ [])"
    by (rule replace_miss[OF ref_text_nonempty])
  also have "replace ?old ?new (?t @ []) = ?t @ replace ?old ?new []"
    using assms(2) hex_no_X[of h2]
    by (intro replace_skip[OF ref_text_nonempty]) (simp add: hd_ref_text is_hash_def)
  finally have 1: "replace ?old ?new (ref_text ''foo'' h2) = ref_text ''foo'' h2"
    by (simp add: foo replace_Nil[OF ref_text_nonempty])
  have "replace ?old ?new (?old @ [CHR 0x0A] @ ref_text ''foo'' h2) =
      ?new @ replace ?old ?new ([CHR 0x0A] @ ref_text ''foo'' h2)"
    by (rule replace_hit[OF ref_text_nonempty])
  also have "replace ?old ?new ([CHR 0x0A] @ ref_text ''foo'' h2) =
      [CHR 0x0A] @ replace ?old ?new (ref_text ''foo'' h2)"
    by (rule replace_skip[OF ref_text_nonempty]) (simp add: hd_ref_text)
  finally show ?thesis unfolding 1 nested_text_def .
qed

lemma main_nested_second:
  "main remdups git_nested False (Dir [(''ci.yml'', File (nested_text HC HC))]) =
     \<lparr>failure = None,
      disk = Dir [(''ci.yml'', File (nested_text HA HC))],
      written = [[''ci.yml'']],
      reports = [([''ci.yml''], ref_text nested_path HC, ref_text nested_path HA)],
      total_updates = 1, files_modified = 1, queries = [nested_path, ''foo'']\<rparr>"
proof -
  let ?r1 = "\<lparr>full_match = ref_text nested_path HC, action_path = nested_path, current_hash = HC\<rparr>"
  let ?r2 = "\<lparr>full_match = ref_text ''foo'' HC, action_path = ''foo'', current_hash = HC\<rparr>"
  let ?d = "Dir [(''ci.yml'', File (nested_text HC HC))]"
  have c: "collect_all_references remdups ?d = Inr [([''ci.yml''], [?r1, ?r2])]"
    by (rule collect_nested[OF is_hash_HC is_hash_HC])
  have g: "get_hash_mapping git_nested [([''ci.yml''], [?r1, ?r2])] =
      (Inr nested_mapping, [nested_path, ''foo''])"
    by (rule get_hash_mapping_nested) simp_all
  have rw: "rewrite_refs nested_mapping [''ci.yml''] [?r1, ?r2] (nested_text HC HC, [], 0) =
      (None, nested_text HA HC, [([''ci.yml''], ref_text nested_path HC, ref_text nested_path HA)], 1)"
    using HA_neq_HC replace_outer_in_nested[OF is_hash_HC is_hash_HC, of HA]
    by (simp add: nested_mapping_simps Let_def ref_text_def)
  have ne: "nested_text HA HC \<noteq> nested_text HC HC"
    by (simp add: nested_text_def ref_text_def HA_def HC_def)
  have u: "update_files False nested_mapping [([''ci.yml''], [?r1, ?r2])] (?d, [], [], 0, 0) =
      (None, Dir [(''ci.yml'', File (nested_text HA HC))], [[''ci.yml'']],
       [([''ci.yml''], ref_text nested_path HC, ref_text nested_path HA)], 1, 1)"
    using ne read_nested[OF is_hash_HC is_hash_HC] by (simp add: rw del: rewrite_refs.simps)
  show ?thesis
    unfolding main_def using c g u by simp
qed

subsection \<open>A file with other line ends\<close>

text \<open>
  The file of the first example, its line ended by a carriage return and a line feed.
\<close>

definition crlf_content :: string where
  "crlf_content = ''uses: '' @ ref_text ''get-nproc'' HA @ [CHR 0x0D, CHR 0x0A]"

definition crlf_dir :: node where
  "crlf_dir = Dir [(''ci.yml'', File crlf_content)]"

lemma read_crlf:
  "read_text crlf_dir [''ci.yml''] = Inr (''uses: '' @ ref_text ''get-nproc'' HA @ [CHR 0x0A])"
proof -
  have "CHR 0x0D \<notin> set (''uses: '' @ ref_text ''get-nproc'' HA)"
    using no_CR_ref_text[of "''get-nproc''" HA] is_hash_HA by (simp add: is_hash_def)
  from universal_newlines_skip[OF this, of "[CHR 0x0D, CHR 0x0A]"]
  show ?thesis by (simp add: read_text_def crlf_dir_def crlf_content_def)
qed

lemma example_ref_text: "example_ref =
    \<lparr>full_match = ref_text ''get-nproc'' HA, action_path = ''get-nproc'', current_hash = HA\<rparr>"
  by (simp add: example_ref_def ref_text_def)

lemma main_crlf:
  "main remdups git_ok False crlf_dir =
     \<lparr>failure = None,
      disk = Dir [(''ci.yml'', File (''uses: '' @ ref_text ''get-nproc'' HB @ [CHR 0x0A]))],
      written = [[''ci.yml'']],
      reports = [([''ci.yml''], ref_text ''get-nproc'' HA, ref_text ''get-nproc'' HB)],
      total_updates = 1, files_modified = 1, queries = [''get-nproc'']\<rparr>"
proof -
  let ?c = "''uses: '' @ ref_text ''get-nproc'' HA @ [CHR 0x0A]"
  let ?c' = "''uses: '' @ ref_text ''get-nproc'' HB @ [CHR 0x0A]"
  have f: "finditer ?c = [(ref_text ''get-nproc'' HA, ''get-nproc'', HA)]"
    by (rule finditer_line[OF is_path_get_nproc is_hash_HA]) simp_all
  have refs: "references_in remdups ?c = [example_ref]"
    unfolding references_in_def f by (simp add: mk_reference_def example_ref_text)
  have c: "collect_all_references remdups crlf_dir = Inr [([''ci.yml''], [example_ref])]"
    unfolding collect_all_references_def crlf_dir_def rglob_nested
    using read_crlf refs by (simp add: find_action_references_def crlf_dir_def)
  have r: "replace (ref_text ''get-nproc'' HA) (ref_text ''get-nproc'' HB) ?c = ?c'"
    by (rule replace_line) simp_all
  have rw: "rewrite_refs [''get-nproc'' \<mapsto> HB] [''ci.yml''] [example_ref] (?c, [], 0) =
      (None, ?c', [([''ci.yml''], ref_text ''get-nproc'' HA, ref_text ''get-nproc'' HB)], 1)"
    using HA_neq_HB r by (simp add: example_ref_text Let_def ref_text_def)
  have ne: "?c' \<noteq> ?c" using HA_neq_HB by (simp add: ref_text_def)
  have u: "update_files False [''get-nproc'' \<mapsto> HB] [([''ci.yml''], [example_ref])]
       (crlf_dir, [], [], 0, 0) =
      (None, Dir [(''ci.yml'', File ?c')], [[''ci.yml'']],
       [([''ci.yml''], ref_text ''get-nproc'' HA, ref_text ''get-nproc'' HB)], 1, 1)"
    using ne read_crlf rw by (simp add: crlf_dir_def del: rewrite_refs.simps)
  show ?thesis
    by (rule main_updates[OF crlf_dir_def c get_hash_mapping_example u])
qed

subsection \<open>A history query that prints an abbreviated hash\<close>

text \<open>
  The query prints \<^verbatim>\<open>abc\<close>. The first reference of the file is followed by 37
  hexadecimal characters; the hash of the second reference is \<^verbatim>\<open>abc\<close> followed by the
  same 37 characters.
\<close>

definition tail37 :: string where
  "tail37 = ''bbbbbbbbbbbbbbbbbbbbbbbbbbbbbbbbbbbbb''"

definition HD :: string where
  "HD = ''abc'' @ tail37"

definition short_content :: string where
  "short_content = ref_text ''foo'' HA @ tail37 @ [CHR 0x0A] @ ref_text ''foo'' HD"

definition short_dir :: node where
  "short_dir = Dir [(''ci.yml'', File short_content)]"

definition git_short :: git where
  "git_short p = \<lparr>returncode = 0, stdout = ''abc''\<rparr>"

lemma is_hash_HD: "is_hash HD"
  by (simp add: is_hash_def HD_def tail37_def hex_char_def)

lemma HA_neq_HD: "HA \<noteq> HD"
  by (simp add: HA_def HD_def)

lemma ref_text_HD: "ref_text ''foo'' HD = ref_text ''foo'' ''abc'' @ tail37"
  by (simp add: ref_text_def HD_def)

lemma finditer_short:
  "finditer short_content = [(ref_text ''foo'' HA, ''foo'', HA), (ref_text ''foo'' HD, ''foo'', HD)]"
proof -
  have "finditer (ref_text ''foo'' HA @ (tail37 @ [CHR 0x0A]) @ ref_text ''foo'' HD @ []) =
      (ref_text ''foo'' HA, ''foo'', HA) # finditer ((tail37 @ [CHR 0x0A]) @ ref_text ''foo'' HD @ [])"
    by (rule finditer_ref_text[OF is_path_foo is_hash_HA])
  also have "finditer ((tail37 @ [CHR 0x0A]) @ ref_text ''foo'' HD @ []) =
      finditer (ref_text ''foo'' HD @ [])"
    by (rule finditer_skip) (simp add: tail37_def)
  also have "\<dots> = (ref_text ''foo'' HD, ''foo'', HD) # finditer []"
    by (rule finditer_ref_text[OF is_path_foo is_hash_HD])
  finally show ?thesis by (simp add: finditer_Nil short_content_def)
qed

lemma references_in_short:
  "references_in remdups short_content =
    [\<lparr>full_match = ref_text ''foo'' HA, action_path = ''foo'', current_hash = HA\<rparr>,
     \<lparr>full_match = ref_text ''foo'' HD, action_path = ''foo'', current_hash = HD\<rparr>]"
  unfolding references_in_def finditer_short
  using HA_neq_HD by (simp add: mk_reference_def)

lemma read_short: "read_text short_dir [''ci.yml''] = Inr short_content"
proof (rule read_text_File)
  show "file_text short_dir [''ci.yml''] = Inr short_content" by (simp add: short_dir_def)
  show "CHR 0x0D \<notin> set short_content"
    using no_CR_ref_text[of "''foo''" HA] no_CR_ref_text[of "''foo''" HD] is_hash_HA is_hash_HD
    by (simp add: short_content_def is_hash_def tail37_def)
qed

lemma collect_short:
  "collect_all_references remdups short_dir =
    Inr [([''ci.yml''],
      [\<lparr>full_match = ref_text ''foo'' HA, action_path = ''foo'', current_hash = HA\<rparr>,
       \<lparr>full_match = ref_text ''foo'' HD, action_path = ''foo'', current_hash = HD\<rparr>])]"
  unfolding collect_all_references_def short_dir_def rglob_nested
  using read_short references_in_short by (simp add: find_action_references_def short_dir_def)

lemma get_hash_mapping_short:
  assumes "action_path r1 = ''foo''" "action_path r2 = ''foo''"
  shows "get_hash_mapping git_short [([''ci.yml''], [r1, r2])] = (Inr [''foo'' \<mapsto> ''abc''], [''foo''])"
proof -
  have "strip ''abc'' = ''abc''" by (rule strip_id) (simp_all add: isspace_def)
  then have "get_latest_commit_for_path git_short ''foo'' = Inr ''abc''"
    by (simp add: get_latest_commit_for_path_def git_short_def)
  with assms show ?thesis by (simp add: get_hash_mapping_def)
qed

lemma replace_short_first:
  "replace (ref_text ''foo'' HA) (ref_text ''foo'' ''abc'') short_content =
     ref_text ''foo'' HD @ [CHR 0x0A] @ ref_text ''foo'' HD"
proof -
  let ?old = "ref_text ''foo'' HA" and ?new = "ref_text ''foo'' ''abc''"
  let ?t = "''RPLF/actions/foo@'' @ HD"
  have foo: "ref_text ''foo'' HD = CHR ''X'' # ?t" by (simp add: ref_text_def PREFIX_def)
  have "take (length ?old) (CHR ''X'' # ?t @ []) \<noteq> ?old"
    by (simp add: ref_text_def PREFIX_def HA_def HD_def tail37_def)
  then have "replace ?old ?new (CHR ''X'' # ?t @ []) = CHR ''X'' # replace ?old ?new (?t @ [])"
    by (rule replace_miss[OF ref_text_nonempty])
  also have "replace ?old ?new (?t @ []) = ?t @ replace ?old ?new []"
    by (rule replace_skip[OF ref_text_nonempty]) (simp add: hd_ref_text HD_def tail37_def)
  finally have 1: "replace ?old ?new (ref_text ''foo'' HD) = ref_text ''foo'' HD"
    by (simp add: foo replace_Nil[OF ref_text_nonempty])
  have "replace ?old ?new (?old @ (tail37 @ [CHR 0x0A]) @ ref_text ''foo'' HD) =
      ?new @ replace ?old ?new ((tail37 @ [CHR 0x0A]) @ ref_text ''foo'' HD)"
    by (rule replace_hit[OF ref_text_nonempty])
  also have "replace ?old ?new ((tail37 @ [CHR 0x0A]) @ ref_text ''foo'' HD) =
      (tail37 @ [CHR 0x0A]) @ replace ?old ?new (ref_text ''foo'' HD)"
    by (rule replace_skip[OF ref_text_nonempty]) (simp add: hd_ref_text tail37_def)
  finally show ?thesis unfolding 1 by (simp add: short_content_def ref_text_HD)
qed

lemma replace_short_second:
  "replace (ref_text ''foo'' HD) (ref_text ''foo'' ''abc'')
       (ref_text ''foo'' HD @ [CHR 0x0A] @ ref_text ''foo'' HD) =
     ref_text ''foo'' ''abc'' @ [CHR 0x0A] @ ref_text ''foo'' ''abc''"
proof -
  let ?old = "ref_text ''foo'' HD" and ?new = "ref_text ''foo'' ''abc''"
  have "replace ?old ?new (?old @ [CHR 0x0A] @ ?old @ []) =
      ?new @ replace ?old ?new ([CHR 0x0A] @ ?old @ [])"
    by (rule replace_hit[OF ref_text_nonempty])
  also have "replace ?old ?new ([CHR 0x0A] @ ?old @ []) = [CHR 0x0A] @ replace ?old ?new (?old @ [])"
    by (rule replace_skip[OF ref_text_nonempty]) (simp add: hd_ref_text)
  also have "replace ?old ?new (?old @ []) = ?new @ replace ?old ?new []"
    by (rule replace_hit[OF ref_text_nonempty])
  finally show ?thesis by (simp add: replace_Nil[OF ref_text_nonempty])
qed

lemma main_short:
  "main remdups git_short False short_dir =
     \<lparr>failure = None,
      disk = Dir [(''ci.yml'', File (ref_text ''foo'' ''abc'' @ [CHR 0x0A] @ ref_text ''foo'' ''abc''))],
      written = [[''ci.yml'']],
      reports = [([''ci.yml''], ref_text ''foo'' HA, ref_text ''foo'' ''abc''),
                 ([''ci.yml''], ref_text ''foo'' HD, ref_text ''foo'' ''abc'')],
      total_updates = 2, files_modified = 1, queries = [''foo'']\<rparr>"
proof -
  let ?r1 = "\<lparr>full_match = ref_text ''foo'' HA, action_path = ''foo'', current_hash = HA\<rparr>"
  let ?r2 = "\<lparr>full_match = ref_text ''foo'' HD, action_path = ''foo'', current_hash = HD\<rparr>"
  let ?c' = "ref_text ''foo'' ''abc'' @ [CHR 0x0A] @ ref_text ''foo'' ''abc''"
  have g: "get_hash_mapping git_short [([''ci.yml''], [?r1, ?r2])] = (Inr [''foo'' \<mapsto> ''abc''], [''foo''])"
    by (rule get_hash_mapping_short) simp_all
  have n1: "HA \<noteq> ''abc''" and n2: "HD \<noteq> ''abc''" by (simp_all add: HA_def HD_def tail37_def)
  have rw: "rewrite_refs [''foo'' \<mapsto> ''abc''] [''ci.yml''] [?r1, ?r2] (short_content, [], 0) =
      (None, ?c',
       [([''ci.yml''], ref_text ''foo'' HA, ref_text ''foo'' ''abc''),
        ([''ci.yml''], ref_text ''foo'' HD, ref_text ''foo'' ''abc'')], 2)"
    using n1 n2 replace_short_first replace_short_second
    by (simp add: Let_def ref_text_def)
  have ne: "?c' \<noteq> short_content"
    by (simp add: short_content_def ref_text_def HA_def)
  have u: "update_files False [''foo'' \<mapsto> ''abc''] [([''ci.yml''], [?r1, ?r2])] (short_dir, [], [], 0, 0) =
      (None, Dir [(''ci.yml'', File ?c')], [[''ci.yml'']],
       [([''ci.yml''], ref_text ''foo'' HA, ref_text ''foo'' ''abc''),
        ([''ci.yml''], ref_text ''foo'' HD, ref_text ''foo'' ''abc'')], 2, 1)"
    using ne read_short rw by (simp add: short_dir_def del: rewrite_refs.simps)
  show ?thesis
    by (rule main_updates[OF short_dir_def collect_short g u])
qed

subsection \<open>A file that does not decode\<close>

lemma main_undecodable:
  "main order git dry_run (Dir [(''ci.yml'', Undecodable)]) =
     \<lparr>failure = Some UnicodeDecodeError, disk = Dir [(''ci.yml'', Undecodable)], written = [],
      reports = [], total_updates = 0, files_modified = 0, queries = []\<rparr>"
  by (simp add: main_def collect_all_references_def find_action_references_def read_text_def
      fnmatch_yml_def suffix_to_prefix)


section \<open>The scanner and the grammar\<close>

text \<open>
  C2. For every text, the matches of the scanner are exactly the occurrences of the
  grammar from the left without overlap (the literal prefix, a workflow path or a
  directory path, an at sign, forty lower-case hexadecimal characters); the references
  built from them carry the matched text, the path and the hash of each match, and
  neither the path nor the hash contains white space.
\<close>

theorem scanner_matches_grammar:
  "(spec_scan content ms \<longleftrightarrow> finditer content = ms) \<and>
   (is_set_order order \<longrightarrow>
      set (references_in order content) = mk_reference ` set (finditer content)) \<and>
   (\<forall>m\<in>set (finditer content).
      full_match (mk_reference m) = fst m \<and>
      action_path (mk_reference m) = fst (snd m) \<and>
      current_hash (mk_reference m) = snd (snd m) \<and>
      fst m = PREFIX @ fst (snd m) @ ''@'' @ snd (snd m) \<and>
      is_path (fst (snd m)) \<and> is_hash (snd (snd m)) \<and>
      \<not> list_ex isspace (fst (snd m)) \<and> \<not> list_ex isspace (snd (snd m)))"
proof (intro conjI impI ballI)
  show "spec_scan content ms \<longleftrightarrow> finditer content = ms"
    using finditer_spec spec_finditer by blast
next
  assume "is_set_order order"
  then show "set (references_in order content) = mk_reference ` set (finditer content)"
    by (rule references_in_set)
next
  fix m assume m: "m \<in> set (finditer content)"
  obtain g0 g1 g2 where [simp]: "m = (g0, g1, g2)" by (cases m) auto
  from m finditer_groups[of g0 g1 g2 content]
  have g: "is_path g1" "is_hash g2" "g0 = PREFIX @ g1 @ ''@'' @ g2" by simp_all
  show "full_match (mk_reference m) = fst m" by (simp add: mk_reference_def)
  show "action_path (mk_reference m) = fst (snd m)" by (simp add: mk_reference_def)
  show "current_hash (mk_reference m) = snd (snd m)" by (simp add: mk_reference_def)
  show "fst m = PREFIX @ fst (snd m) @ ''@'' @ snd (snd m)" using g by simp
  show "is_path (fst (snd m))" using g by simp
  show "is_hash (snd (snd m))" using g by simp
  show "\<not> list_ex isspace (fst (snd m))" using g is_path_no_space by simp
  show "\<not> list_ex isspace (snd (snd m))" using g is_hash_no_space by simp
qed

theorem scanner_matches_grammar_witness:
  "spec_scan (''uses: '' @ PREFIX @ ''get-nproc'' @ ''@'' @ HA)
     [(PREFIX @ ''get-nproc'' @ ''@'' @ HA, ''get-nproc'', HA)] \<and>
   set (references_in remdups (''uses: '' @ PREFIX @ ''get-nproc'' @ ''@'' @ HA)) =
     {\<lparr>full_match = PREFIX @ ''get-nproc'' @ ''@'' @ HA, action_path = ''get-nproc'',
       current_hash = HA\<rparr>} \<and>
   is_path ''get-nproc'' \<and> is_hash HA \<and>
   \<not> list_ex isspace ''get-nproc'' \<and> \<not> list_ex isspace HA"
  using scanner_matches_grammar[of "''uses: '' @ PREFIX @ ''get-nproc'' @ ''@'' @ HA"
      "[(PREFIX @ ''get-nproc'' @ ''@'' @ HA, ''get-nproc'', HA)]" remdups]
    finditer_example1 is_set_order_remdups
  by (simp add: mk_reference_def)

text \<open>
  C10. Every reference the scanner produces has as its matched text the prefix, its path,
  an at sign and its hash, the hash being forty characters long; so in every
  substitution the rewriter reports, the old and the new text are the same up to and
  including the at sign and differ only in what follows it.
\<close>

theorem full_match_concatenation:
  assumes "is_set_order order"
    and "rewrite_refs hm file (references_in order content) (content, [], 0) = (err, content', out, n)"
  shows "(\<forall>ref\<in>set (references_in order content).
            full_match ref = PREFIX @ action_path ref @ ''@'' @ current_hash ref \<and>
            length (current_hash ref) = 40) \<and>
         (\<forall>r\<in>set out. \<exists>p h latest. length h = 40 \<and>
            fst (snd r) = PREFIX @ p @ ''@'' @ h \<and> snd (snd r) = PREFIX @ p @ ''@'' @ latest)"
proof (intro conjI ballI)
  fix ref assume "ref \<in> set (references_in order content)"
  then have "ref \<in> mk_reference ` set (finditer content)"
    using assms(1) references_in_set by simp
  from reference_fields[OF this]
  show "full_match ref = PREFIX @ action_path ref @ ''@'' @ current_hash ref"
    and "length (current_hash ref) = 40" by (simp_all add: is_hash_def)
next
  fix r assume "r \<in> set out"
  from rewrite_refs_reports[OF assms(2) this]
  obtain ref latest where ref: "ref \<in> set (references_in order content)"
    and r: "r = (file, full_match ref, PREFIX @ action_path ref @ ''@'' @ latest)" by auto
  from ref have "ref \<in> mk_reference ` set (finditer content)"
    using assms(1) references_in_set by simp
  from reference_fields[OF this] r
  show "\<exists>p h latest. length h = 40 \<and>
            fst (snd r) = PREFIX @ p @ ''@'' @ h \<and> snd (snd r) = PREFIX @ p @ ''@'' @ latest"
    by (intro exI[of _ "action_path ref"] exI[of _ "current_hash ref"] exI[of _ latest])
       (simp add: is_hash_def)
qed


theorem full_match_concatenation_witness:
  "is_set_order remdups \<and>
   full_match \<lparr>full_match = PREFIX @ ''get-nproc'' @ ''@'' @ HA, action_path = ''get-nproc'',
       current_hash = HA\<rparr> = PREFIX @ ''get-nproc'' @ ''@'' @ HA \<and>
   length HA = 40 \<and>
   (\<exists>p h latest. length h = 40 \<and>
      PREFIX @ ''get-nproc'' @ ''@'' @ HA = PREFIX @ p @ ''@'' @ h \<and>
      PREFIX @ ''get-nproc'' @ ''@'' @ HB = PREFIX @ p @ ''@'' @ latest)"
  using full_match_concatenation[OF is_set_order_remdups rewrite_example1] is_set_order_remdups
  unfolding references_in_def finditer_example1
  by (simp add: mk_reference_def)


section \<open>The resolver\<close>

text \<open>
  C6. For every scan result, the resolver never queries a path twice; and when no query
  fails it returns one mapping, having queried every distinct referenced path exactly
  once, however many files and current hashes it appears with: the paths queried and the
  keys of the mapping are exactly the referenced paths, each mapped to the hash its query
  printed.
\<close>

theorem one_query_per_path:
  "distinct (snd (get_hash_mapping git all_references)) \<and>
   ((\<forall>p\<in>referenced_paths all_references. \<not> query_fails git p) \<longrightarrow>
      (\<exists>hm log. get_hash_mapping git all_references = (Inr hm, log) \<and>
         distinct log \<and> set log = referenced_paths all_references \<and>
         dom hm = referenced_paths all_references \<and>
         (\<forall>p\<in>referenced_paths all_references. hm p = Some (strip (stdout (git p))))))"
proof (intro conjI impI)
  obtain res log where g: "get_hash_mapping git all_references = (res, log)"
    by (cases "get_hash_mapping git all_references") auto
  note c = get_hash_mapping_cases[of git all_references, unfolded g]
  show "distinct (snd (get_hash_mapping git all_references))"
    using c unfolding g by (cases res) (auto simp: resolved_so_far_def aborted_at_def)
  assume ok: "\<forall>p\<in>referenced_paths all_references. \<not> query_fails git p"
  show "\<exists>hm log. get_hash_mapping git all_references = (Inr hm, log) \<and>
         distinct log \<and> set log = referenced_paths all_references \<and>
         dom hm = referenced_paths all_references \<and>
         (\<forall>p\<in>referenced_paths all_references. hm p = Some (strip (stdout (git p))))"
  proof (cases res)
    case (Inl e)
    with c have "get_latest_commit_for_path git (last log) = Inl e"
      and "last log \<in> referenced_paths all_references" by (auto simp: aborted_at_def)
    with ok show ?thesis by (auto simp: query_ok_iff)
  next
    case (Inr hm)
    with c have r: "resolved_so_far git (hm, log)" and l: "set log = referenced_paths all_references"
      by auto
    have "hm p = Some (strip (stdout (git p)))" if "p \<in> referenced_paths all_references" for p
    proof -
      from that l r have "p \<in> dom hm" by (simp add: resolved_so_far_def)
      then obtain h where h: "hm p = Some h" by blast
      with r have "get_latest_commit_for_path git p = Inr h" by (simp add: resolved_so_far_def)
      moreover have "get_latest_commit_for_path git p = Inr (strip (stdout (git p)))"
        using ok that by (simp add: query_ok_iff)
      ultimately show ?thesis using h by simp
    qed
    with r l g Inr show ?thesis by (auto simp: resolved_so_far_def)
  qed
qed

theorem one_query_per_path_witness:
  "\<not> query_fails git_ok ''get-nproc'' \<and>
   (\<exists>hm log. get_hash_mapping git_ok [([''ci.yml''], [example_ref])] = (Inr hm, log) \<and>
      distinct log \<and> set log = {''get-nproc''} \<and> dom hm = {''get-nproc''} \<and>
      hm ''get-nproc'' = Some HB)"
  using one_query_per_path[of git_ok "[([''ci.yml''], [example_ref])]"] git_ok_succeeds
  unfolding referenced_paths_example
  by (simp add: git_ok_def strip_HB)

text \<open>
  C8. For every run whose scan succeeds, if the query for some referenced path exits with
  a non-zero status or returns an empty hash, the resolver returns no mapping, not even a
  partial one: the run ends with the exception of the first failing query, which is the
  last query made, and nothing is written or reported.
\<close>

theorem failed_query_aborts:
  assumes "collect_all_references order directory = Inr all_references"
    and "p \<in> referenced_paths all_references" and "query_fails git p"
  shows "\<exists>e log. get_hash_mapping git all_references = (Inl e, log) \<and>
           log \<noteq> [] \<and> last log \<in> referenced_paths all_references \<and>
           query_fails git (last log) \<and>
           e = (if returncode (git (last log)) \<noteq> 0 then CalledProcessError else AssertionError) \<and>
           (\<forall>q\<in>set (butlast log). \<not> query_fails git q) \<and>
           main order git dry_run directory =
             \<lparr>failure = Some e, disk = directory, written = [], reports = [],
              total_updates = 0, files_modified = 0, queries = log\<rparr>"
proof -
  obtain res log where g: "get_hash_mapping git all_references = (res, log)"
    by (cases "get_hash_mapping git all_references") auto
  note c = get_hash_mapping_cases[of git all_references, unfolded g]
  obtain e where e: "res = Inl e"
  proof (cases res)
    case (Inr hm)
    with c have "resolved_so_far git (hm, log)" "p \<in> set log" using assms(2) by auto
    then have "\<not> query_fails git p" by (rule resolved_not_failing)
    with assms(3) show ?thesis by simp
  qed auto
  with c have a: "aborted_at git e log" and l: "last log \<in> referenced_paths all_references"
    by auto
  from a have f: "get_latest_commit_for_path git (last log) = Inl e" by (simp add: aborted_at_def)
  have qf: "query_fails git (last log)"
  proof (rule ccontr)
    assume "\<not> query_fails git (last log)"
    with f show False by (simp add: query_ok_iff)
  qed
  with f have ee: "e = (if returncode (git (last log)) \<noteq> 0 then CalledProcessError else AssertionError)"
    by (simp add: query_fails_iff)
  have d: "\<exists>es. directory = Dir es"
  proof (cases directory)
    case (File content)
    with assms(1) have "all_references = []" by (simp add: collect_all_references_def)
    with assms(2) show ?thesis by (simp add: referenced_paths_def)
  next
    case Undecodable
    with assms(1) have "all_references = []" by (simp add: collect_all_references_def)
    with assms(2) show ?thesis by (simp add: referenced_paths_def)
  qed auto
  then have m: "main order git dry_run directory =
             \<lparr>failure = Some e, disk = directory, written = [], reports = [],
              total_updates = 0, files_modified = 0, queries = log\<rparr>"
    using assms(1) g e by (auto simp: main_def)
  show ?thesis
    using g e a l qf ee m by (auto simp: aborted_at_def)
qed

theorem failed_query_aborts_witness:
  "collect_all_references remdups example_dir = Inr [([''ci.yml''], [example_ref])] \<and>
   ''get-nproc'' \<in> referenced_paths [([''ci.yml''], [example_ref])] \<and>
   query_fails git_failing ''get-nproc'' \<and>
   (\<exists>e log. get_hash_mapping git_failing [([''ci.yml''], [example_ref])] = (Inl e, log) \<and>
      main remdups git_failing False example_dir =
        \<lparr>failure = Some e, disk = example_dir, written = [], reports = [],
         total_updates = 0, files_modified = 0, queries = log\<rparr>)"
proof -
  have 1: "''get-nproc'' \<in> referenced_paths [([''ci.yml''], [example_ref])]"
    by (simp add: referenced_paths_example)
  from failed_query_aborts[OF collect_example 1 git_failing_fails, of False]
  show ?thesis using collect_example 1 git_failing_fails by blast
qed


section \<open>The directory walk\<close>




section \<open>The rewriter\<close>


text \<open>
  C7. In every run that reaches the rewriter: a reference whose resolved hash equals its
  current hash is passed over, with no substitution and no count; the updates counted and
  the substitutions reported are one for each stale reference; the files counted as
  modified are the files whose content after all substitutions differs from the original;
  the files written are exactly those, and only in normal mode; every other path holds
  the text it held, and every written file holds its new content.
\<close>

theorem stale_only_updates:
  assumes "directory = Dir es"
    and "collect_all_references order directory = Inr all_references"
    and "get_hash_mapping git all_references = (Inr hm, log)"
  shows "(\<forall>ref refs file st. hm (action_path ref) = Some (current_hash ref) \<longrightarrow>
            rewrite_refs hm file (ref # refs) st = rewrite_refs hm file refs st) \<and>
    failure (main order git dry_run directory) = None \<and>
    total_updates (main order git dry_run directory) =
      sum_list (map (\<lambda>fr. length (filter (stale hm) (snd fr))) all_references) \<and>
    length (reports (main order git dry_run directory)) =
      total_updates (main order git dry_run directory) \<and>
    files_modified (main order git dry_run directory) =
      length (filter (changed hm directory) all_references) \<and>
    written (main order git dry_run directory) =
      (if dry_run then [] else map fst (filter (changed hm directory) all_references)) \<and>
    (\<forall>q. q \<notin> set (written (main order git dry_run directory)) \<longrightarrow>
       file_text (disk (main order git dry_run directory)) q = file_text directory q) \<and>
    (\<forall>fr\<in>set all_references. \<not> dry_run \<and> changed hm directory fr \<longrightarrow>
       file_text (disk (main order git dry_run directory)) (fst fr) =
         Inr (rewritten hm (snd fr) (content_at directory (fst fr))))"
proof -
  from main_result[OF assms, of dry_run] obtain d' where
    m: "main order git dry_run directory =
      \<lparr>failure = None, disk = d',
       written = (if dry_run then [] else map fst (filter (changed hm directory) all_references)),
       reports = concat (map (\<lambda>fr. file_reports hm (fst fr) (snd fr) (content_at directory (fst fr)))
                   all_references),
       total_updates = sum_list (map (\<lambda>fr. length (filter (stale hm) (snd fr))) all_references),
       files_modified = length (filter (changed hm directory) all_references),
       queries = log\<rparr>"
    and rd: "\<forall>q. file_text d' q =
        (case map_of all_references q of
           Some refs \<Rightarrow>
             if dry_run \<or> \<not> changed hm directory (q, refs) then file_text directory q
             else Inr (rewritten hm refs (content_at directory q))
         | None \<Rightarrow> file_text directory q)"
    by blast
  note dist = collect_all_references_entries(1)[OF assms(2)]
  note cov = resolved_covers[OF assms(3)]
  have 1: "\<forall>ref refs file st. hm (action_path ref) = Some (current_hash ref) \<longrightarrow>
            rewrite_refs hm file (ref # refs) st = rewrite_refs hm file refs st"
  proof (intro allI impI)
    fix ref :: ActionReference and refs f st
    assume "hm (action_path ref) = Some (current_hash ref)"
    then show "rewrite_refs hm f (ref # refs) st = rewrite_refs hm f refs st"
      by (cases st) simp
  qed
  have "length (concat (map (\<lambda>fr. file_reports hm (fst fr) (snd fr) (content_at directory (fst fr)))
                   all_references)) =
        sum_list (map (\<lambda>fr. length (filter (stale hm) (snd fr))) all_references)"
    using cov by (simp add: length_concat comp_def file_reports_length cong: map_cong)
  then have 2: "length (reports (main order git dry_run directory)) =
      total_updates (main order git dry_run directory)"
    unfolding m by simp
  have 3: "file_text d' q = file_text directory q"
    if "q \<notin> set (if dry_run then [] else map fst (filter (changed hm directory) all_references))" for q
  proof (cases "map_of all_references q")
    case None
    with rd show ?thesis by simp
  next
    case (Some refs)
    then have mem: "(q, refs) \<in> set all_references" by (rule map_of_SomeD)
    show ?thesis
    proof (cases dry_run)
      case True
      with rd Some show ?thesis by simp
    next
      case False
      with that mem have "\<not> changed hm directory (q, refs)" by force
      with rd Some show ?thesis by simp
    qed
  qed
  have 4: "file_text d' (fst fr) = Inr (rewritten hm (snd fr) (content_at directory (fst fr)))"
    if "fr \<in> set all_references" "\<not> dry_run" "changed hm directory fr" for fr
  proof -
    from that(1) dist have "map_of all_references (fst fr) = Some (snd fr)" by simp
    with rd that(2,3) show ?thesis by simp
  qed
  show ?thesis
    unfolding m using 1 2[unfolded m] 3 4 by simp
qed

theorem stale_only_updates_witness:
  "example_dir = Dir [(''ci.yml'', File example_content), (''notes.yaml'', File example_content),
     (''sub'', Dir [(''build.yml'', File ''no reference'')])] \<and>
   collect_all_references remdups example_dir = Inr [([''ci.yml''], [example_ref])] \<and>
   get_hash_mapping git_ok [([''ci.yml''], [example_ref])] =
     (Inr [''get-nproc'' \<mapsto> HB], [''get-nproc'']) \<and>
   failure (main remdups git_ok False example_dir) = None \<and>
   total_updates (main remdups git_ok False example_dir) = 1 \<and>
   files_modified (main remdups git_ok False example_dir) = 1 \<and>
   written (main remdups git_ok False example_dir) = [[''ci.yml'']] \<and>
   file_text (disk (main remdups git_ok False example_dir)) [''ci.yml''] =
     Inr (''uses: '' @ PREFIX @ ''get-nproc'' @ ''@'' @ HB) \<and>
   file_text (disk (main remdups git_ok False example_dir)) [''notes.yaml''] = Inr example_content"
proof -
  let ?r = "main remdups git_ok False example_dir"
  let ?hm = "[''get-nproc'' \<mapsto> HB]"
  let ?all = "[([''ci.yml''], [example_ref])]"
  note t = stale_only_updates[OF example_dir_def collect_example get_hash_mapping_example, of False]
  from t have 1: "failure ?r = None" by blast
  from t have "total_updates ?r = sum_list (map (\<lambda>fr. length (filter (stale ?hm) (snd fr))) ?all)"
    by blast
  then have 2: "total_updates ?r = 1" using stale_example by simp
  from t have "files_modified ?r = length (filter (changed ?hm example_dir) ?all)" by blast
  then have 3: "files_modified ?r = 1" using changed_example by simp
  from t have "written ?r = (if False then [] else map fst (filter (changed ?hm example_dir) ?all))"
    by blast
  then have 4: "written ?r = [[''ci.yml'']]" using changed_example by simp
  from t have "\<forall>fr\<in>set ?all. \<not> False \<and> changed ?hm example_dir fr \<longrightarrow>
       file_text (disk ?r) (fst fr) = Inr (rewritten ?hm (snd fr) (content_at example_dir (fst fr)))"
    by blast
  then have "file_text (disk ?r) [''ci.yml''] =
      Inr (rewritten ?hm [example_ref] (content_at example_dir [''ci.yml'']))"
    using changed_example by (simp del: file_text.simps)
  then have 5: "file_text (disk ?r) [''ci.yml''] = Inr (''uses: '' @ PREFIX @ ''get-nproc'' @ ''@'' @ HB)"
    unfolding content_at_example rewritten_example .
  from t have "\<forall>q. q \<notin> set (written ?r) \<longrightarrow> file_text (disk ?r) q = file_text example_dir q"
    by blast
  then have "[''notes.yaml''] \<notin> set (written ?r) \<longrightarrow>
      file_text (disk ?r) [''notes.yaml''] = file_text example_dir [''notes.yaml'']" by blast
  then have "file_text (disk ?r) [''notes.yaml''] = file_text example_dir [''notes.yaml'']"
    unfolding 4 by (simp del: file_text.simps)
  moreover have "file_text example_dir [''notes.yaml''] = Inr example_content"
    by (simp add: example_dir_def)
  ultimately have 6: "file_text (disk ?r) [''notes.yaml''] = Inr example_content" by simp
  show ?thesis
    using 1 2 3 4 5 6 example_dir_def collect_example get_hash_mapping_example by blast
qed

text \<open>
  C5. In every run in which each history query prints a commit hash: every file that the
  run writes holds afterwards a text that is the same, outside the references the scanner
  matches in it, as the text the run read from the file, in which every line end has been
  read as a line feed: each matched reference keeps its prefix, its path and the at sign
  and is followed by a commit hash, and every other character is unchanged. Every path that
  the run does not write holds the text it held, with the line ends it had.
\<close>

theorem unchanged_outside_references:
  assumes "directory = Dir es" and "is_set_order order"
    and "collect_all_references order directory = Inr all_references"
    and "get_hash_mapping git all_references = (Inr hm, log)"
    and "\<forall>p\<in>referenced_paths all_references. commit_hash (strip (stdout (git p)))"
  shows "(\<forall>q\<in>set (written (main order git dry_run directory)).
       \<exists>content content'. read_text directory q = Inr content \<and>
         file_text (disk (main order git dry_run directory)) q = Inr content' \<and>
         same_outside_references content content') \<and>
    (\<forall>q. q \<notin> set (written (main order git dry_run directory)) \<longrightarrow>
       file_text (disk (main order git dry_run directory)) q = file_text directory q)"
proof -
  from main_result[OF assms(1,3,4), of dry_run] obtain d' where
    m: "disk (main order git dry_run directory) = d'"
    and w: "written (main order git dry_run directory) =
      (if dry_run then [] else map fst (filter (changed hm directory) all_references))"
    and rd: "\<forall>q. file_text d' q =
        (case map_of all_references q of
           Some refs \<Rightarrow>
             if dry_run \<or> \<not> changed hm directory (q, refs) then file_text directory q
             else Inr (rewritten hm refs (content_at directory q))
         | None \<Rightarrow> file_text directory q)"
    by auto
  note dist = collect_all_references_entries(1)[OF assms(3)]
  have hv: "\<forall>p l. hm p = Some l \<longrightarrow> commit_hash l"
    using resolved_values[OF assms(4)] assms(5) by blast
  have 1: "\<exists>content content'. read_text directory q = Inr content \<and>
         file_text d' q = Inr content' \<and> same_outside_references content content'"
    if "q \<in> set (if dry_run then [] else map fst (filter (changed hm directory) all_references))"
    for q
  proof -
    from that have nd: "\<not> dry_run" by (cases dry_run) auto
    with that obtain refs where mem: "(q, refs) \<in> set all_references"
      and ch: "changed hm directory (q, refs)" by auto
    from mem dist have mo: "map_of all_references q = Some refs" by simp
    from scanned_readable[OF assms(3)] mem obtain content where
      rq: "read_text directory q = Inr content" by force
    then have ca: "content_at directory q = content" by (simp add: content_at_def)
    from mem rq have "refs = references_in order content"
      using collect_all_references_entries(2)[OF assms(3)] by auto
    then have "\<forall>ref\<in>set refs. scanned_reference ref"
      using references_in_scanned[OF assms(2)] by blast
    from rewritten_same_outside[OF this hv same_outside_refl]
    have "same_outside_references content (rewritten hm refs content)" .
    moreover from rd mo nd ch ca have "file_text d' q = Inr (rewritten hm refs content)" by simp
    ultimately show ?thesis using rq by blast
  qed
  have 2: "file_text d' q = file_text directory q"
    if "q \<notin> set (if dry_run then [] else map fst (filter (changed hm directory) all_references))"
    for q
  proof (cases "map_of all_references q")
    case None
    with rd show ?thesis by simp
  next
    case (Some refs)
    then have mem: "(q, refs) \<in> set all_references" by (rule map_of_SomeD)
    show ?thesis
    proof (cases dry_run)
      case True
      with rd Some show ?thesis by simp
    next
      case False
      with that mem have "\<not> changed hm directory (q, refs)" by force
      with rd Some show ?thesis by simp
    qed
  qed
  show ?thesis unfolding m w using 1 2 by blast
qed

theorem unchanged_outside_references_witness:
  "example_dir = Dir [(''ci.yml'', File example_content), (''notes.yaml'', File example_content),
     (''sub'', Dir [(''build.yml'', File ''no reference'')])] \<and>
   is_set_order remdups \<and>
   collect_all_references remdups example_dir = Inr [([''ci.yml''], [example_ref])] \<and>
   get_hash_mapping git_ok [([''ci.yml''], [example_ref])] =
     (Inr [''get-nproc'' \<mapsto> HB], [''get-nproc'']) \<and>
   commit_hash (strip (stdout (git_ok ''get-nproc''))) \<and>
   [''ci.yml''] \<in> set (written (main remdups git_ok False example_dir)) \<and>
   read_text example_dir [''ci.yml''] = Inr example_content \<and>
   file_text (disk (main remdups git_ok False example_dir)) [''ci.yml''] =
     Inr (''uses: '' @ PREFIX @ ''get-nproc'' @ ''@'' @ HB) \<and>
   same_outside_references example_content (''uses: '' @ PREFIX @ ''get-nproc'' @ ''@'' @ HB) \<and>
   [''notes.yaml''] \<notin> set (written (main remdups git_ok False example_dir)) \<and>
   file_text (disk (main remdups git_ok False example_dir)) [''notes.yaml''] = Inr example_content"
proof -
  let ?r = "main remdups git_ok False example_dir"
  let ?new = "''uses: '' @ PREFIX @ ''get-nproc'' @ ''@'' @ HB"
  have c: "\<forall>p\<in>referenced_paths [([''ci.yml''], [example_ref])]. commit_hash (strip (stdout (git_ok p)))"
    by (simp add: git_ok_def strip_HB commit_hash_HB)
  note t = unchanged_outside_references[OF example_dir_def is_set_order_remdups collect_example
      get_hash_mapping_example c, of False]
  have w: "written ?r = [[''ci.yml'']]" by (simp add: main_example)
  have f: "file_text (disk ?r) [''ci.yml''] = Inr ?new" by (simp add: main_example)
  from t w obtain content content' where 1: "read_text example_dir [''ci.yml''] = Inr content"
    and 2: "file_text (disk ?r) [''ci.yml''] = Inr content'"
    and 3: "same_outside_references content content'" by auto
  from 1 have 4: "content = example_content" by (simp add: read_example)
  from 2 f have 5: "content' = ?new" by simp
  from t have "[''notes.yaml''] \<notin> set (written ?r) \<longrightarrow>
      file_text (disk ?r) [''notes.yaml''] = file_text example_dir [''notes.yaml'']" by blast
  with w have 6: "file_text (disk ?r) [''notes.yaml''] = Inr example_content"
    by (simp add: example_dir_def del: file_text.simps) (simp add: example_dir_def)
  have 7: "commit_hash (strip (stdout (git_ok ''get-nproc'')))"
    by (simp add: git_ok_def strip_HB commit_hash_HB)
  show ?thesis
    using 3[unfolded 4 5] w f 6 7 read_example example_dir_def is_set_order_remdups collect_example
      get_hash_mapping_example by simp
qed

text \<open>
  The statement fails for the bytes of the file, and it fails without the condition on the
  history queries. A file with a carriage return and a line feed after its reference is
  written back with the line feed alone, although the query prints a commit hash. When the
  query prints \<^verbatim>\<open>abc\<close>, the substitution for the first reference of the file makes, with
  the 37 characters that follow it, the text of the second reference of the file, and the
  substitution for the second reference then removes those 37 characters, which no
  reference of the original file holds.
\<close>

theorem unchanged_outside_references_counterexample:
  "crlf_content = ''uses: '' @ ref_text ''get-nproc'' HA @ [CHR 0x0D, CHR 0x0A] \<and>
   finditer crlf_content = [(ref_text ''get-nproc'' HA, ''get-nproc'', HA)] \<and>
   file_text crlf_dir [''ci.yml''] = Inr crlf_content \<and>
   commit_hash (strip (stdout (git_ok ''get-nproc''))) \<and>
   written (main remdups git_ok False crlf_dir) = [[''ci.yml'']] \<and>
   file_text (disk (main remdups git_ok False crlf_dir)) [''ci.yml''] =
     Inr (''uses: '' @ ref_text ''get-nproc'' HB @ [CHR 0x0A]) \<and>
   \<not> same_outside_references crlf_content (''uses: '' @ ref_text ''get-nproc'' HB @ [CHR 0x0A]) \<and>
   short_content = ref_text ''foo'' HA @ tail37 @ [CHR 0x0A] @ ref_text ''foo'' HD \<and>
   finditer short_content =
     [(ref_text ''foo'' HA, ''foo'', HA), (ref_text ''foo'' HD, ''foo'', HD)] \<and>
   file_text short_dir [''ci.yml''] = Inr short_content \<and>
   stdout (git_short ''foo'') = ''abc'' \<and>
   written (main remdups git_short False short_dir) = [[''ci.yml'']] \<and>
   file_text (disk (main remdups git_short False short_dir)) [''ci.yml''] =
     Inr (ref_text ''foo'' ''abc'' @ [CHR 0x0A] @ ref_text ''foo'' ''abc'')"
proof -
  have 1: "finditer crlf_content = [(ref_text ''get-nproc'' HA, ''get-nproc'', HA)]"
    unfolding crlf_content_def by (rule finditer_line[OF is_path_get_nproc is_hash_HA]) simp_all
  have 2: "commit_hash (strip (stdout (git_ok ''get-nproc'')))"
    by (simp add: git_ok_def strip_HB commit_hash_HB)
  have "CHR 0x0D \<in> set crlf_content" by (simp add: crlf_content_def)
  moreover have "CHR 0x0D \<notin> set (''uses: '' @ ref_text ''get-nproc'' HB @ [CHR 0x0A])"
    using no_CR_ref_text[of "''get-nproc''" HB] is_hash_HB by (simp add: is_hash_def)
  ultimately have 3:
    "\<not> same_outside_references crlf_content (''uses: '' @ ref_text ''get-nproc'' HB @ [CHR 0x0A])"
    using same_outside_CR by blast
  have 4: "written (main remdups git_ok False crlf_dir) = [[''ci.yml'']]"
    "file_text (disk (main remdups git_ok False crlf_dir)) [''ci.yml''] =
       Inr (''uses: '' @ ref_text ''get-nproc'' HB @ [CHR 0x0A])"
    by (simp_all add: main_crlf)
  have 5: "written (main remdups git_short False short_dir) = [[''ci.yml'']]"
    "file_text (disk (main remdups git_short False short_dir)) [''ci.yml''] =
       Inr (ref_text ''foo'' ''abc'' @ [CHR 0x0A] @ ref_text ''foo'' ''abc'')"
    by (simp_all add: main_short)
  have 6: "file_text crlf_dir [''ci.yml''] = Inr crlf_content"
    "file_text short_dir [''ci.yml''] = Inr short_content"
    by (simp_all add: crlf_dir_def short_dir_def)
  have 7: "stdout (git_short ''foo'') = ''abc''" by (simp add: git_short_def)
  show ?thesis
    using 1 2 3 4 5 6 7 finditer_short crlf_content_def short_content_def by blast
qed

text \<open>
  C1. A run does not always leave every reference with the hash that its mapping holds for
  the path of the reference. In the file below, the reference to
  \<^verbatim>\<open>.github/workflows/XRPLF/actions/foo\<close> is up to date at \<^const>\<open>HA\<close> and is passed over,
  and the reference to \<^verbatim>\<open>foo\<close> is stale. The text of the second is the end of the text
  of the first, so the substitution for the second, the only one the run reports, rewrites
  the first as well: after the run the scanner finds the first reference with the hash
  \<^const>\<open>HC\<close>, and the mapping holds \<^const>\<open>HA\<close> for its path.
\<close>

theorem nested_reference_overwritten:
  "nested_content = ref_text nested_path HA @ [CHR 0x0A] @ ref_text ''foo'' HA \<and>
   collect_all_references remdups nested_dir =
     Inr [([''ci.yml''],
       [\<lparr>full_match = ref_text nested_path HA, action_path = nested_path, current_hash = HA\<rparr>,
        \<lparr>full_match = ref_text ''foo'' HA, action_path = ''foo'', current_hash = HA\<rparr>])] \<and>
   get_hash_mapping git_nested
     [([''ci.yml''],
       [\<lparr>full_match = ref_text nested_path HA, action_path = nested_path, current_hash = HA\<rparr>,
        \<lparr>full_match = ref_text ''foo'' HA, action_path = ''foo'', current_hash = HA\<rparr>])] =
     (Inr nested_mapping, [nested_path, ''foo'']) \<and>
   nested_mapping nested_path = Some HA \<and>
   nested_mapping ''foo'' = Some HC \<and>
   failure (main remdups git_nested False nested_dir) = None \<and>
   reports (main remdups git_nested False nested_dir) =
     [([''ci.yml''], ref_text ''foo'' HA, ref_text ''foo'' HC)] \<and>
   file_text (disk (main remdups git_nested False nested_dir)) [''ci.yml''] =
     Inr (ref_text nested_path HC @ [CHR 0x0A] @ ref_text ''foo'' HC) \<and>
   finditer (ref_text nested_path HC @ [CHR 0x0A] @ ref_text ''foo'' HC) =
     [(ref_text nested_path HC, nested_path, HC), (ref_text ''foo'' HC, ''foo'', HC)] \<and>
   HA \<noteq> HC"
proof -
  have 1: "collect_all_references remdups nested_dir =
     Inr [([''ci.yml''],
       [\<lparr>full_match = ref_text nested_path HA, action_path = nested_path, current_hash = HA\<rparr>,
        \<lparr>full_match = ref_text ''foo'' HA, action_path = ''foo'', current_hash = HA\<rparr>])]"
    unfolding nested_dir_def nested_content_def by (rule collect_nested[OF is_hash_HA is_hash_HA])
  have 2: "get_hash_mapping git_nested
     [([''ci.yml''],
       [\<lparr>full_match = ref_text nested_path HA, action_path = nested_path, current_hash = HA\<rparr>,
        \<lparr>full_match = ref_text ''foo'' HA, action_path = ''foo'', current_hash = HA\<rparr>])] =
     (Inr nested_mapping, [nested_path, ''foo''])"
    by (rule get_hash_mapping_nested) simp_all
  have 3: "file_text (disk (main remdups git_nested False nested_dir)) [''ci.yml''] =
     Inr (ref_text nested_path HC @ [CHR 0x0A] @ ref_text ''foo'' HC)"
    by (simp add: main_nested_first nested_text_def)
  have 4: "failure (main remdups git_nested False nested_dir) = None"
    "reports (main remdups git_nested False nested_dir) =
     [([''ci.yml''], ref_text ''foo'' HA, ref_text ''foo'' HC)]"
    by (simp_all add: main_nested_first)
  have 5: "nested_content = ref_text nested_path HA @ [CHR 0x0A] @ ref_text ''foo'' HA"
    by (simp add: nested_content_def nested_text_def)
  show ?thesis
    using 1 2 3 4 5 nested_mapping_simps finditer_two[OF is_hash_HC is_hash_HC, unfolded nested_text_def]
      HA_neq_HC by blast
qed

text \<open>
  C3. A second run on the tree that a first run has written, with the same history, is
  not always idle. On the tree that the run above wrote, the second run finds the reference
  to \<^verbatim>\<open>.github/workflows/XRPLF/actions/foo\<close> stale: it makes one substitution, counts
  one update and one modified file and writes the file again, with the same queries as the
  first run.
\<close>

theorem second_run_rewrites_again:
  "disk (main remdups git_nested False nested_dir) = Dir [(''ci.yml'', File (nested_text HC HC))] \<and>
   failure (main remdups git_nested False (disk (main remdups git_nested False nested_dir))) = None \<and>
   total_updates (main remdups git_nested False (disk (main remdups git_nested False nested_dir))) = 1 \<and>
   files_modified (main remdups git_nested False (disk (main remdups git_nested False nested_dir))) = 1 \<and>
   written (main remdups git_nested False (disk (main remdups git_nested False nested_dir))) =
     [[''ci.yml'']] \<and>
   reports (main remdups git_nested False (disk (main remdups git_nested False nested_dir))) =
     [([''ci.yml''], ref_text nested_path HC, ref_text nested_path HA)] \<and>
   queries (main remdups git_nested False (disk (main remdups git_nested False nested_dir))) =
     queries (main remdups git_nested False nested_dir)"
proof -
  have d: "disk (main remdups git_nested False nested_dir) = Dir [(''ci.yml'', File (nested_text HC HC))]"
    by (simp add: main_nested_first)
  show ?thesis unfolding d by (simp add: main_nested_second) (simp add: main_nested_first)
qed

end
